theory Spec2Isabelle
  imports Main "HOL-Library.Sublist" "HOL-Library.Char_ord" "HOL-Library.List_Lexorder"
begin

text \<open>
  The file finder (fileUtils.ts) and the collector (index.ts) of phaset-mcp. A JavaScript
  string is a list of 8-bit characters here, so patterns, paths and file contents are strings
  of code units below 256; a directory tree is given as a value, and reading a file is a
  function from paths to a text or an error.
\<close>

section \<open>String replacement as used by matchPattern\<close>

text \<open>
  \<open>replaceAll\<close> is \<open>String.prototype.replace\<close> with a global expression that matches one fixed
  text: the occurrences are taken from left to right and do not overlap. \<open>regexSource\<close> is the
  chain of eight replacements of matchPattern, the innermost applied first.
\<close>

definition special :: "char \<Rightarrow> bool" where
  "special c = (c \<in> set [CHR ''.'', CHR ''+'', CHR ''?'', CHR ''^'', CHR ''$'', CHR ''{'', CHR ''}'',
       CHR ''('', CHR '')'', CHR ''|'', CHR ''['', CHR '']'', CHR 0x5C])"

definition escapeSpecial :: "string \<Rightarrow> string" where
  "escapeSpecial s = concat (map (\<lambda>c. if special c then [CHR 0x5C, c] else [c]) s)"

function replaceAll :: "string \<Rightarrow> string \<Rightarrow> string \<Rightarrow> string" where
  "replaceAll pat rep [] = []"
| "replaceAll pat rep (c # cs) =
     (if pat \<noteq> [] \<and> prefix pat (c # cs)
      then rep @ replaceAll pat rep (drop (length pat) (c # cs))
      else c # replaceAll pat rep cs)"
  by pat_completeness auto
termination
  by (relation "measure (\<lambda>(pat, rep, s). length s)") (auto simp: Suc_le_eq)

definition regexSource :: "string \<Rightarrow> string" where
  "regexSource pattern =
     replaceAll ''___DOUBLESTAR___'' ''.*''
      (replaceAll ''___SLASH_DOUBLESTAR___'' ''/.*''
       (replaceAll ''___DOUBLESTAR_SLASH___'' ''(?:.*/)?''
        (replaceAll ''*'' ''[^/]*''
         (replaceAll ''**'' ''___DOUBLESTAR___''
          (replaceAll ''/**'' ''___SLASH_DOUBLESTAR___''
           (replaceAll ''**/'' ''___DOUBLESTAR_SLASH___''
            (escapeSpecial pattern)))))))"

definition anchored :: "string \<Rightarrow> string" where
  "anchored r = ''^'' @ r @ ''$''"

section \<open>The regular expressions of the run-time\<close>

datatype re = Zero | One | Chr char | Dot | Cls bool "char list"
  | Seq re re | Alt re re | Star re | Bol | Eol

type_synonym frame = "re list \<times> re list"

definition mk_seq :: "re list \<Rightarrow> re" where
  "mk_seq rs = foldr Seq rs One"

definition close :: "frame \<Rightarrow> re" where
  "close f = foldr Alt (fst f) (mk_seq (snd f))"

definition push :: "frame \<Rightarrow> re \<Rightarrow> frame" where
  "push f r = (fst f, snd f @ [r])"

definition syntax_char :: "char \<Rightarrow> bool" where
  "syntax_char c = (c \<in> set [CHR ''^'', CHR ''$'', CHR 0x5C, CHR ''.'', CHR ''*'', CHR ''+'',
       CHR ''?'', CHR ''('', CHR '')'', CHR ''['', CHR '']'', CHR ''{'', CHR ''}'', CHR ''|''])"

definition quant :: "string \<Rightarrow> (re \<Rightarrow> re) \<times> nat" where
  "quant s =
     (if prefix ''*?'' s then (Star, 2)
      else if prefix ''*'' s then (Star, 1)
      else if prefix ''+?'' s then (\<lambda>r. Seq r (Star r), 2)
      else if prefix ''+'' s then (\<lambda>r. Seq r (Star r), 1)
      else if prefix ''??'' s then (\<lambda>r. Alt One r, 2)
      else if prefix ''?'' s then (\<lambda>r. Alt r One, 1)
      else (\<lambda>r. r, 0))"

fun class_items :: "string \<Rightarrow> (char list \<times> nat) option" where
  "class_items [] = None"
| "class_items (c # cs) =
     (if c = CHR '']'' then Some ([], 1)
      else if c = CHR 0x5C \<or> c = CHR ''-'' then None
      else map_option (\<lambda>(ms, n). (c # ms, Suc n)) (class_items cs))"

definition char_class :: "string \<Rightarrow> (re \<times> nat) option" where
  "char_class cs =
     (if prefix ''^'' cs
      then map_option (\<lambda>(ms, n). (Cls True ms, Suc n)) (class_items (drop 1 cs))
      else map_option (\<lambda>(ms, n). (Cls False ms, n)) (class_items cs))"

definition atom :: "char \<Rightarrow> string \<Rightarrow> (re \<times> nat) option" where
  "atom c cs =
     (if c = CHR ''.'' then Some (Dot, 0)
      else if c = CHR 0x5C then
        (case cs of [] \<Rightarrow> None
         | d # _ \<Rightarrow> if syntax_char d \<or> d = CHR ''/'' then Some (Chr d, 1) else None)
      else if c = CHR ''['' then char_class cs
      else if c \<in> set [CHR ''*'', CHR ''+'', CHR ''?'', CHR ''{'', CHR ''}'', CHR '']''] then None
      else Some (Chr c, 0))"

function parse :: "frame list \<Rightarrow> frame \<Rightarrow> string \<Rightarrow> re option" where
  "parse stk cur [] = (if stk = [] then Some (close cur) else None)"
| "parse stk cur (c # cs) =
     (if c = CHR ''('' then
        (if prefix ''?:'' cs then parse (cur # stk) ([], []) (drop 2 cs)
         else if prefix ''?'' cs then None
         else parse (cur # stk) ([], []) cs)
      else if c = CHR '')'' then
        (case stk of [] \<Rightarrow> None
         | f # stk' \<Rightarrow> parse stk' (push f (fst (quant cs) (close cur))) (drop (snd (quant cs)) cs))
      else if c = CHR ''|'' then parse stk (fst cur @ [mk_seq (snd cur)], []) cs
      else if c = CHR ''^'' then parse stk (push cur Bol) cs
      else if c = CHR ''$'' then parse stk (push cur Eol) cs
      else
        (case atom c cs of None \<Rightarrow> None
         | Some (a, m) \<Rightarrow>
             parse stk (push cur (fst (quant (drop m cs)) a))
               (drop (m + snd (quant (drop m cs))) cs)))"
  by pat_completeness auto
termination
  by (relation "measure (\<lambda>(stk, cur, s). length s)") auto

text \<open>
  The run-time refuses an expression that is too large for it: a run of more than 32767
  character atoms in a row (plain characters, \<open>.\<close> and classes, none of them under a
  quantifier) makes the construction fail with the SyntaxError ``Regular expression too large'',
  so a source of 32767 literal characters is accepted and one of 32768 is not. A quantified
  atom, a group and an anchor end a run.
\<close>

fun text_element :: "re \<Rightarrow> bool" where
  "text_element (Chr c) = True"
| "text_element Dot = True"
| "text_element (Cls n ms) = True"
| "text_element r = False"

definition maxTextLength :: int where
  "maxTextLength = 32767"

fun tooLargeFrom :: "int \<Rightarrow> re \<Rightarrow> bool" where
  "tooLargeFrom k (Seq r s) =
     (if text_element r then maxTextLength \<le> k \<or> tooLargeFrom (k + 1) s
      else tooLargeFrom 0 r \<or> tooLargeFrom 0 s)"
| "tooLargeFrom k (Alt r s) = (tooLargeFrom 0 r \<or> tooLargeFrom 0 s)"
| "tooLargeFrom k (Star r) = tooLargeFrom 0 r"
| "tooLargeFrom k r = False"

definition tooLarge :: "re \<Rightarrow> bool" where
  "tooLarge r = tooLargeFrom 0 r"

definition compile :: "string \<Rightarrow> re option" where
  "compile src =
     (case parse [] ([], []) src of
        None \<Rightarrow> None
      | Some r \<Rightarrow> if tooLarge r then None else Some r)"

text \<open>
  Without the dotAll flag \<open>.\<close> refuses the line terminators. Two of the four, line feed and
  carriage return, are 8-bit characters; U+2028 and U+2029 lie outside the strings of this
  model. Matching is by derivatives; \<open>b\<close> and \<open>e\<close> say whether the position is the start and
  the end of the input, for \<open>^\<close> and \<open>$\<close>.
\<close>

definition line_terminator :: "char \<Rightarrow> bool" where
  "line_terminator c = (c = CHR 0x0A \<or> c = CHR 0x0D)"

fun nullable :: "bool \<Rightarrow> bool \<Rightarrow> re \<Rightarrow> bool" where
  "nullable b e Zero = False"
| "nullable b e One = True"
| "nullable b e (Chr c) = False"
| "nullable b e Dot = False"
| "nullable b e (Cls n ms) = False"
| "nullable b e (Seq r s) = (nullable b e r \<and> nullable b e s)"
| "nullable b e (Alt r s) = (nullable b e r \<or> nullable b e s)"
| "nullable b e (Star r) = True"
| "nullable b e Bol = b"
| "nullable b e Eol = e"

definition seq :: "re \<Rightarrow> re \<Rightarrow> re" where
  "seq r s = (if r = Zero then Zero else if r = One then s else Seq r s)"

definition alt :: "re \<Rightarrow> re \<Rightarrow> re" where
  "alt r s = (if r = Zero then s else if s = Zero then r else if r = s then r else Alt r s)"

fun deriv :: "bool \<Rightarrow> char \<Rightarrow> re \<Rightarrow> re" where
  "deriv b c Zero = Zero"
| "deriv b c One = Zero"
| "deriv b c (Chr d) = (if c = d then One else Zero)"
| "deriv b c Dot = (if line_terminator c then Zero else One)"
| "deriv b c (Cls n ms) = (if (c \<in> set ms) \<noteq> n then One else Zero)"
| "deriv b c (Seq r s) =
     alt (seq (deriv b c r) s) (if nullable b False r then deriv b c s else Zero)"
| "deriv b c (Alt r s) = alt (deriv b c r) (deriv b c s)"
| "deriv b c (Star r) = seq (deriv b c r) (Star r)"
| "deriv b c Bol = Zero"
| "deriv b c Eol = Zero"

fun run :: "bool \<Rightarrow> re \<Rightarrow> string \<Rightarrow> bool" where
  "run b r [] = nullable b True r"
| "run b r (c # cs) = run False (deriv b c r) cs"

definition any_char :: re where
  "any_char = Cls True []"

definition test :: "re \<Rightarrow> string \<Rightarrow> bool" where
  "test r s = run True (Seq (Star any_char) (Seq r (Star any_char))) s"

section \<open>matchPattern\<close>

datatype error = SyntaxError | IOError string | NotDirectory | CollectFailed error

definition matchPattern :: "string \<Rightarrow> string \<Rightarrow> error + bool" where
  "matchPattern filePath pattern =
     (case compile (anchored (regexSource pattern)) of
        None \<Rightarrow> Inl SyntaxError
      | Some r \<Rightarrow> Inr (test r filePath))"


section \<open>findFiles\<close>

text \<open>
  An exception of matchPattern inside the loop of walk is caught by the try/catch around the
  whole listing: the entries that follow are not visited, and what was added before stays. A
  directory that cannot be read (\<open>Unreadable\<close>) adds nothing.
\<close>

datatype fsnode = File | Other | Unreadable | Dir "(string \<times> fsnode) list"

definition isDirectory :: "fsnode \<Rightarrow> bool" where
  "isDirectory n = (case n of Dir es \<Rightarrow> True | Unreadable \<Rightarrow> True | File \<Rightarrow> False | Other \<Rightarrow> False)"

definition isFile :: "fsnode \<Rightarrow> bool" where
  "isFile n = (n = File)"

definition normalizePattern :: "string \<Rightarrow> string" where
  "normalizePattern pattern = map (\<lambda>c. if c = CHR 0x5C then CHR ''/'' else c) pattern"

fun shouldIgnore :: "string \<Rightarrow> string list \<Rightarrow> error + bool" where
  "shouldIgnore filePath [] = Inr False"
| "shouldIgnore filePath (pattern # ignorePatterns) =
     (case matchPattern (normalizePattern filePath) pattern of
        Inl e \<Rightarrow> Inl e
      | Inr b \<Rightarrow> if b then Inr True else shouldIgnore filePath ignorePatterns)"

fun matchesAnyPattern :: "string \<Rightarrow> string list \<Rightarrow> error + bool" where
  "matchesAnyPattern filePath [] = Inr False"
| "matchesAnyPattern filePath (pattern # patterns) =
     (case matchPattern (normalizePattern filePath) pattern of
        Inl e \<Rightarrow> Inl e
      | Inr b \<Rightarrow> if b then Inr True else matchesAnyPattern filePath patterns)"

definition relativePath :: "string \<Rightarrow> string \<Rightarrow> string" where
  "relativePath dir name = (if dir = [] then name else dir @ ''/'' @ name)"

definition add :: "string \<Rightarrow> string list \<Rightarrow> string list" where
  "add x xs = (if x \<in> set xs then xs else xs @ [x])"

fun walk :: "string list \<Rightarrow> string list \<Rightarrow> int \<Rightarrow> string \<Rightarrow> nat \<Rightarrow> fsnode \<Rightarrow> string list \<Rightarrow> string list"
  and walkEntries :: "string list \<Rightarrow> string list \<Rightarrow> int \<Rightarrow> string \<Rightarrow> nat \<Rightarrow> (string \<times> fsnode) list
        \<Rightarrow> string list \<Rightarrow> string list" where
  "walk ign pats maxDepth dir depth node results =
     (if int depth > maxDepth then results
      else case node of
        Dir entries \<Rightarrow> walkEntries ign pats maxDepth dir depth entries results
      | File \<Rightarrow> results | Other \<Rightarrow> results | Unreadable \<Rightarrow> results)"
| "walkEntries ign pats maxDepth dir depth [] results = results"
| "walkEntries ign pats maxDepth dir depth ((name, node) # entries) results =
     (case shouldIgnore (relativePath dir name) ign of
        Inl e \<Rightarrow> results
      | Inr True \<Rightarrow> walkEntries ign pats maxDepth dir depth entries results
      | Inr False \<Rightarrow>
          if isDirectory node then
            walkEntries ign pats maxDepth dir depth entries
              (walk ign pats maxDepth (relativePath dir name) (depth + 1) node results)
          else if isFile node then
            (case matchesAnyPattern (relativePath dir name) pats of
               Inl e \<Rightarrow> results
             | Inr True \<Rightarrow> walkEntries ign pats maxDepth dir depth entries (add (relativePath dir name) results)
             | Inr False \<Rightarrow> walkEntries ign pats maxDepth dir depth entries results)
          else walkEntries ign pats maxDepth dir depth entries results)"

record options =
  ignore :: "string list option"
  maxDepth :: "int option"

definition findFiles :: "fsnode \<Rightarrow> string list \<Rightarrow> options \<Rightarrow> string list" where
  "findFiles baseDir patterns opts =
     sort (walk (map normalizePattern (case ignore opts of None \<Rightarrow> [] | Some i \<Rightarrow> i))
             (map normalizePattern patterns)
             (case maxDepth opts of None \<Rightarrow> 10 | Some d \<Rightarrow> d)
             [] 0 baseDir [])"


section \<open>The collector (index.ts)\<close>

definition minimal :: "string list" where
  "minimal = [''package.json'', ''package-lock.json'', ''go.mod'', ''go.sum'', ''pom.xml'',
     ''build.gradle'', ''build.gradle.kts'', ''requirements.txt'', ''setup.py'', ''pyproject.toml'',
     ''Cargo.toml'', ''Cargo.lock'', ''Gemfile'', ''Gemfile.lock'', ''composer.json'', ''README.md'',
     ''README.txt'', ''README'', ''readme.md'', ''LICENSE'', ''LICENSE.txt'', ''LICENSE.md'']"

definition standard :: "string list" where
  "standard = minimal @ [''Dockerfile'', ''Dockerfile.*'', ''docker-compose.yml'',
     ''docker-compose.yaml'', ''.dockerignore'', ''.github/workflows/*.yml'',
     ''.github/workflows/*.yaml'', ''.gitlab-ci.yml'', ''azure-pipelines.yml'', ''Jenkinsfile'',
     ''openapi.yaml'', ''openapi.yml'', ''openapi.json'', ''swagger.json'', ''swagger.yaml'',
     ''swagger.yml'', ''api-spec.yaml'', ''api-spec.yml'', ''schema.graphql'', ''*.graphql'',
     ''CODEOWNERS'', ''.env.example'', ''.env.sample'', ''Makefile'', ''justfile'']"

definition deep :: "string list" where
  "deep = standard @ [''terraform/**/*.tf'', ''terraform/*.tf'', ''k8s/**/*.yaml'', ''k8s/**/*.yml'',
     ''kubernetes/**/*.yaml'', ''kubernetes/**/*.yml'', ''.k8s/**/*.yaml'', ''helm/**/*.yaml'',
     ''config/*.json'', ''config/*.yaml'', ''config/*.yml'', ''.circleci/config.yml'',
     ''bitbucket-pipelines.yml'', ''cloudbuild.yaml'', ''skaffold.yaml'', ''serverless.yml'',
     ''serverless.yaml'']"

text \<open>
  getFilePatterns looks its argument up in an object with the keys \<open>minimal\<close>, \<open>standard\<close> and
  \<open>deep\<close> and falls back to \<open>standard\<close> where the lookup gives nothing. The tool schema admits
  these three values only; for any other string the lookup also sees the keys that every
  object inherits, whose values are no pattern lists (\<open>None\<close>).
\<close>

definition inheritedKeys :: "string list" where
  "inheritedKeys = [''constructor'', ''__proto__'', ''hasOwnProperty'', ''isPrototypeOf'',
     ''propertyIsEnumerable'', ''toLocaleString'', ''toString'', ''valueOf'', ''__defineGetter__'',
     ''__defineSetter__'', ''__lookupGetter__'', ''__lookupSetter__'']"

definition getFilePatterns :: "string \<Rightarrow> string list option" where
  "getFilePatterns depth =
     (if depth = ''minimal'' then Some minimal
      else if depth = ''standard'' then Some standard
      else if depth = ''deep'' then Some deep
      else if depth \<in> set inheritedKeys then None
      else Some standard)"

definition basename :: "string \<Rightarrow> string" where
  "basename p = rev (takeWhile (\<lambda>c. c \<noteq> CHR ''/'') (rev p))"

definition dirname :: "string \<Rightarrow> string" where
  "dirname p =
     (if CHR ''/'' \<notin> set p then ''.''
      else rev (drop 1 (dropWhile (\<lambda>c. c \<noteq> CHR ''/'') (rev p))))"

definition toLowerCase :: "string \<Rightarrow> string" where
  "toLowerCase s =
     map (\<lambda>c. if CHR ''A'' \<le> c \<and> c \<le> CHR ''Z'' then char_of (of_char c + (32::nat)) else c) s"

fun includesText :: "string \<Rightarrow> string \<Rightarrow> bool" where
  "includesText [] sub = (sub = [])"
| "includesText (c # cs) sub = (prefix sub (c # cs) \<or> includesText cs sub)"

definition getFilePriority :: "string \<Rightarrow> nat" where
  "getFilePriority filePath =
     (let fileName = basename filePath; dirName = dirname filePath in
      if fileName = ''package.json'' then 1
      else if prefix ''readme'' (toLowerCase fileName) then 2
      else if fileName \<in> set [''go.mod'', ''pom.xml'', ''build.gradle'', ''Cargo.toml'',
                ''pyproject.toml'', ''setup.py'', ''requirements.txt'', ''Gemfile'', ''composer.json'']
        then 3
      else if prefix ''openapi.'' fileName \<or> prefix ''swagger.'' fileName
                \<or> includesText fileName ''api-spec'' then 4
      else if fileName = ''Dockerfile'' \<or> fileName = ''docker-compose.yml''
                \<or> fileName = ''docker-compose.yaml'' then 5
      else if includesText dirName ''.github/workflows'' \<or> fileName = ''.gitlab-ci.yml''
                \<or> fileName = ''Jenkinsfile'' then 6
      else if includesText filePath ''terraform/'' \<or> includesText filePath ''k8s/''
                \<or> includesText filePath ''kubernetes/'' then 8
      else 7)"

definition estimateTokens :: "string \<Rightarrow> nat" where
  "estimateTokens text = (length text + 3) div 4"

fun decimal :: "nat \<Rightarrow> string" where
  "decimal n =
     (if n < 10 then [''0123456789'' ! n]
      else decimal (n div 10) @ [''0123456789'' ! (n mod 10)])"

declare decimal.simps [simp del]

definition truncateContent :: "string \<Rightarrow> nat \<Rightarrow> string" where
  "truncateContent content maxChars =
     (if length content \<le> maxChars then content
      else take maxChars content
        @ [CHR 0x0A, CHR 0x0A] @ ''... [Content truncated - file too large. Showing first ''
        @ decimal maxChars @ '' characters]'')"

definition MAX_FILE_SIZE :: nat where
  "MAX_FILE_SIZE = 50000"

definition MAX_TOTAL_TOKENS :: nat where
  "MAX_TOTAL_TOKENS = 15000"

definition ignored :: "string list" where
  "ignored = [''node_modules/**'', ''.git/**'', ''dist/**'', ''build/**'', ''target/**'', ''.next/**'',
     ''out/**'', ''vendor/**'', ''.venv/**'', ''venv/**'', ''__pycache__/**'', ''*.pyc'', ''.idea/**'',
     ''.vscode/**'', ''coverage/**'', ''.coverage/**'']"

record collected =
  path :: string
  content :: string

datatype diagnostic =
    CouldNotRead string error
  | SkippingBinary string
  | Truncating string nat nat
  | BudgetReached nat nat nat nat
  | Summary nat nat

record cstate =
  results :: "collected list"
  totalTokens :: nat
  diagnostics :: "diagnostic list"

definition report :: "diagnostic \<Rightarrow> cstate \<Rightarrow> cstate" where
  "report d st = st\<lparr>diagnostics := diagnostics st @ [d]\<rparr>"

fun seenFilter :: "string list \<Rightarrow> string list \<Rightarrow> string list" where
  "seenFilter seenPaths [] = []"
| "seenFilter seenPaths (m # matches) =
     (if m \<in> set seenPaths then seenFilter seenPaths matches
      else m # seenFilter (m # seenPaths) matches)"

datatype outcome = Continue cstate | Break cstate

definition processFile :: "(string \<Rightarrow> error + string) \<Rightarrow> nat \<Rightarrow> string \<Rightarrow> cstate \<Rightarrow> outcome" where
  "processFile readFile allCount m st =
     (case readFile m of
        Inl e \<Rightarrow> Continue (report (CouldNotRead m e) st)
      | Inr text \<Rightarrow>
          if CHR 0x00 \<in> set text then Continue (report (SkippingBinary m) st)
          else
            let st1 = (if length text > MAX_FILE_SIZE
                       then report (Truncating m (length text) MAX_FILE_SIZE) st else st);
                text1 = (if length text > MAX_FILE_SIZE
                         then truncateContent text MAX_FILE_SIZE else text);
                tokens = estimateTokens text1
            in if totalTokens st1 + tokens > MAX_TOTAL_TOKENS
               then Break (report (BudgetReached (totalTokens st1) MAX_TOTAL_TOKENS
                              (length (results st1)) (allCount - length (results st1))) st1)
               else Continue (st1\<lparr>results := results st1 @ [\<lparr>path = m, content = text1\<rparr>],
                                 totalTokens := totalTokens st1 + tokens\<rparr>))"

fun readFiles :: "(string \<Rightarrow> error + string) \<Rightarrow> nat \<Rightarrow> string list \<Rightarrow> cstate \<Rightarrow> cstate" where
  "readFiles readFile allCount [] st = st"
| "readFiles readFile allCount (m # rest) st =
     (case processFile readFile allCount m st of
        Break st' \<Rightarrow> st'
      | Continue st' \<Rightarrow> readFiles readFile allCount rest st')"

definition allFiles :: "fsnode \<Rightarrow> string list \<Rightarrow> string list" where
  "allFiles repo patterns =
     sort_key getFilePriority
       (seenFilter [] (findFiles repo patterns \<lparr>ignore = Some ignored, maxDepth = None\<rparr>))"

definition findAndReadFiles :: "fsnode \<Rightarrow> (string \<Rightarrow> error + string) \<Rightarrow> string list \<Rightarrow> cstate" where
  "findAndReadFiles repo readFile patterns =
     (let files = allFiles repo patterns;
          st = readFiles readFile (length files) files
                 \<lparr>results = [], totalTokens = 0, diagnostics = []\<rparr>
      in report (Summary (length (results st)) (totalTokens st)) st)"

text \<open>
  collectRepoFiles answers with the files that findAndReadFiles returns; sizeBytes is taken
  from the returned content. Where getFilePatterns gives no pattern list, the search inside
  findAndReadFiles fails, its try/catch reports that, and no file is returned.
\<close>

record reported = collected +
  sizeBytes :: nat

datatype response = NoFiles | Files string "reported list"

definition collectRepoFiles ::
    "fsnode option \<Rightarrow> (string \<Rightarrow> error + string) \<Rightarrow> string option \<Rightarrow> error + response" where
  "collectRepoFiles repo readFile depthArg =
     (let depth = (case depthArg of None \<Rightarrow> ''standard'' | Some d \<Rightarrow> d) in
      case repo of
        None \<Rightarrow> Inl (CollectFailed (IOError ''ENOENT''))
      | Some node \<Rightarrow>
          if \<not> isDirectory node then Inl (CollectFailed NotDirectory)
          else
            let files = (case getFilePatterns depth of
                           None \<Rightarrow> []
                         | Some patterns \<Rightarrow> results (findAndReadFiles node readFile patterns)) in
            if length files = 0 then Inr NoFiles
            else Inr (Files depth
                   (map (\<lambda>f. \<lparr>path = path f, content = content f, sizeBytes = length (content f)\<rparr>)
                      files)))"


section \<open>Invariants of the translated pattern\<close>

fun escaped :: "string \<Rightarrow> bool" where
  "escaped [] = True"
| "escaped (c # cs) =
     (if c = CHR 0x5C then (case cs of [] \<Rightarrow> False | d # ds \<Rightarrow> special d \<and> escaped ds)
      else \<not> special c \<and> escaped cs)"

fun wellformed :: "string \<Rightarrow> bool" where
  "wellformed [] = True"
| "wellformed (c # cs) =
     (if c = CHR 0x5C then (case cs of [] \<Rightarrow> False | d # ds \<Rightarrow> special d \<and> wellformed ds)
      else if c = CHR ''['' then prefix ''^/]*'' cs \<and> wellformed (drop 4 cs)
      else if c = CHR ''('' then prefix ''?:.*/)?'' cs \<and> wellformed (drop 7 cs)
      else if c = CHR ''.'' then prefix ''*'' cs \<and> wellformed (drop 1 cs)
      else \<not> special c \<and> c \<noteq> CHR ''*'' \<and> wellformed cs)"


section \<open>What a regular expression matches\<close>

inductive matches :: "bool \<Rightarrow> bool \<Rightarrow> re \<Rightarrow> string \<Rightarrow> bool" where
  m_One: "matches b e One []"
| m_Chr: "matches b e (Chr c) [c]"
| m_Dot: "\<not> line_terminator c \<Longrightarrow> matches b e Dot [c]"
| m_Cls: "(c \<in> set ms) \<noteq> n \<Longrightarrow> matches b e (Cls n ms) [c]"
| m_Seq: "matches b (e \<and> v = []) r u \<Longrightarrow> matches (b \<and> u = []) e s v \<Longrightarrow> matches b e (Seq r s) (u @ v)"
| m_AltL: "matches b e r w \<Longrightarrow> matches b e (Alt r s) w"
| m_AltR: "matches b e s w \<Longrightarrow> matches b e (Alt r s) w"
| m_StarNil: "matches b e (Star r) []"
| m_StarStep: "matches b (e \<and> v = []) r u \<Longrightarrow> matches (b \<and> u = []) e (Star r) v
     \<Longrightarrow> matches b e (Star r) (u @ v)"
| m_Bol: "b \<Longrightarrow> matches b e Bol []"
| m_Eol: "e \<Longrightarrow> matches b e Eol []"

fun items :: "string \<Rightarrow> re list" where
  "items [] = []"
| "items (c # cs) =
     (if c = CHR 0x5C then (case cs of [] \<Rightarrow> [] | d # ds \<Rightarrow> Chr d # items ds)
      else if c = CHR ''['' then Star (Cls True ''/'') # items (drop 4 cs)
      else if c = CHR ''('' then Alt (Seq (Star Dot) (Seq (Chr CHR ''/'') One)) One # items (drop 7 cs)
      else if c = CHR ''.'' then Star Dot # items (drop 1 cs)
      else Chr c # items cs)"

fun anchor_free :: "re \<Rightarrow> bool" where
  "anchor_free Bol = False"
| "anchor_free Eol = False"
| "anchor_free (Seq r s) = (anchor_free r \<and> anchor_free s)"
| "anchor_free (Alt r s) = (anchor_free r \<and> anchor_free s)"
| "anchor_free (Star r) = anchor_free r"
| "anchor_free r = True"

definition accepts :: "re list \<Rightarrow> string \<Rightarrow> bool" where
  "accepts rs w = matches True True (mk_seq rs) w"

definition lit :: "string \<Rightarrow> re list" where
  "lit l = map Chr l"

definition regex :: "string \<Rightarrow> re" where
  "regex pattern = mk_seq (Bol # items (regexSource pattern) @ [Eol])"

definition compiles :: "string \<Rightarrow> bool" where
  "compiles pattern = (compile (anchored (regexSource pattern)) \<noteq> None)"


section \<open>What the walk visits, stated on the tree\<close>

fun filesOf :: "string \<Rightarrow> fsnode \<Rightarrow> string list list"
  and filesIn :: "string \<Rightarrow> (string \<times> fsnode) list \<Rightarrow> string list list" where
  "filesOf dir (Dir entries) = filesIn dir entries"
| "filesOf dir File = []"
| "filesOf dir Other = []"
| "filesOf dir Unreadable = []"
| "filesIn dir [] = []"
| "filesIn dir ((name, node) # entries) =
     (if node = File then [[relativePath dir name]] else [])
       @ map ((#) (relativePath dir name)) (filesOf (relativePath dir name) node)
       @ filesIn dir entries"

definition admitted :: "string list \<Rightarrow> string list \<Rightarrow> int \<Rightarrow> nat \<Rightarrow> string list \<Rightarrow> bool" where
  "admitted ign pats md depth chain =
     (int (depth + length chain) \<le> md + 1
      \<and> list_all (\<lambda>q. shouldIgnore q ign = Inr False) chain
      \<and> matchesAnyPattern (last chain) pats = Inr True)"

definition hits :: "string list \<Rightarrow> string list \<Rightarrow> int \<Rightarrow> nat \<Rightarrow> string list list \<Rightarrow> string list" where
  "hits ign pats md depth cs = map last (filter (admitted ign pats md depth) cs)"

definition ignoreOf :: "options \<Rightarrow> string list" where
  "ignoreOf opts = map normalizePattern (case ignore opts of None \<Rightarrow> [] | Some i \<Rightarrow> i)"

definition maxDepthOf :: "options \<Rightarrow> int" where
  "maxDepthOf opts = (case maxDepth opts of None \<Rightarrow> 10 | Some d \<Rightarrow> d)"





definition lineTree :: fsnode where
  "lineTree = Dir [(''node_modules'', Dir [(''lib.js'', File), (''a'' @ [CHR 0x0A] @ ''b'', File)])]"



section \<open>Notions used to state the collector's properties\<close>

definition initial :: cstate where
  "initial = \<lparr>results = [], totalTokens = 0, diagnostics = []\<rparr>"

definition capped :: "string \<Rightarrow> string" where
  "capped text = (if length text > MAX_FILE_SIZE then truncateContent text MAX_FILE_SIZE else text)"

fun stops :: "(string \<Rightarrow> error + string) \<Rightarrow> nat \<Rightarrow> string list \<Rightarrow> cstate \<Rightarrow> bool" where
  "stops readFile allCount [] st = False"
| "stops readFile allCount (m # rest) st =
     (case processFile readFile allCount m st of
        Break st' \<Rightarrow> True
      | Continue st' \<Rightarrow> stops readFile allCount rest st')"

definition cost :: "cstate \<Rightarrow> nat" where
  "cost st = sum_list (map (estimateTokens \<circ> content) (results st))"

definition bigRepo :: fsnode where
  "bigRepo = Dir [(''package-lock.json'', File)]"

definition bigRead :: "string \<Rightarrow> error + string" where
  "bigRead p = Inr (replicate 250000 CHR ''x'')"

definition notice :: string where
  "notice = [CHR 0x0A, CHR 0x0A]
     @ ''... [Content truncated - file too large. Showing first 50000 characters]''"

definition accepted :: "(string \<Rightarrow> error + string) \<Rightarrow> collected \<Rightarrow> bool" where
  "accepted rd f = (case rd (path f) of Inl e \<Rightarrow> False
      | Inr text \<Rightarrow> CHR 0x00 \<notin> set text \<and> content f = capped text)"

definition budgetRepo :: fsnode where
  "budgetRepo = Dir [(''a.txt'', File), (''b.txt'', File), (''c.txt'', File), (''d.txt'', File)]"

definition budgetRead :: "string \<Rightarrow> error + string" where
  "budgetRead p = (if p = ''d.txt'' then Inr ''tiny'' else Inr (replicate 24000 CHR ''x''))"

definition binRepo :: fsnode where
  "binRepo = Dir [(''Dockerfile.bin'', File), (''README.md'', File)]"

definition binRead :: "string \<Rightarrow> error + string" where
  "binRead p = (if p = ''Dockerfile.bin'' then Inr [CHR 0x00, CHR 0x01, CHR 0x02, CHR 0x03]
                else Inr ''hello'')"

definition reportedFiles :: "error + response \<Rightarrow> reported list" where
  "reportedFiles r = (case r of Inr (Files depth fs) \<Rightarrow> fs | Inr NoFiles \<Rightarrow> [] | Inl e \<Rightarrow> [])"

section \<open>Properties of matchPattern\<close>

lemma special_bs [simp]: "special (CHR 0x5C)"
  by (simp add: special_def)

lemma escaped_escapeSpecial: "escaped (escapeSpecial s)"
  by (induction s) (auto simp: escapeSpecial_def)

lemma escaped_plain_append:
  "\<forall>c \<in> set p. \<not> special c \<Longrightarrow> escaped (p @ t) = escaped t"
  by (induction p) auto

lemma replaceAll_no_match:
  "\<not> prefix pat (c # cs) \<Longrightarrow> replaceAll pat rep (c # cs) = c # replaceAll pat rep cs"
  by simp

lemma replaceAll_prefix:
  "pat \<noteq> [] \<Longrightarrow> replaceAll pat rep (pat @ t) = rep @ replaceAll pat rep t"
proof -
  assume "pat \<noteq> []"
  then obtain p ps where p: "pat = p # ps" by (cases pat) auto
  have "replaceAll pat rep (p # (ps @ t)) = rep @ replaceAll pat rep (drop (length pat) (p # (ps @ t)))"
    unfolding p by (subst replaceAll.simps) simp
  moreover have "drop (length pat) (p # (ps @ t)) = t" by (simp add: p)
  ultimately show ?thesis by (simp add: p)
qed

lemma escaped_replaceAll:
  assumes pat: "pat \<noteq> []" "\<forall>c \<in> set pat. \<not> special c"
      and rep: "\<forall>c \<in> set rep. \<not> special c"
  shows "escaped s \<Longrightarrow> escaped (replaceAll pat rep s)"
proof (induction s rule: length_induct)
  case (1 s)
  show ?case
  proof (cases s)
    case Nil
    then show ?thesis by simp
  next
    case (Cons c cs)
    show ?thesis
    proof (cases "prefix pat s")
      case True
      then obtain t where t: "s = pat @ t" by (auto simp: prefix_def)
      with 1(2) pat have "escaped t" by (simp add: escaped_plain_append)
      moreover have "length t < length s" using t pat by simp
      ultimately have "escaped (replaceAll pat rep t)" using 1(1) by blast
      moreover have "replaceAll pat rep s = rep @ replaceAll pat rep t"
        using pat t by (simp add: replaceAll_prefix)
      ultimately show ?thesis using rep by (simp add: escaped_plain_append)
    next
      case False
      then have step: "replaceAll pat rep s = c # replaceAll pat rep cs"
        using Cons by simp
      show ?thesis
      proof (cases "c = CHR 0x5C")
        case c: True
        with 1(2) Cons obtain d ds where d: "cs = d # ds" "special d" "escaped ds"
          by (auto split: list.splits)
        have "\<not> prefix pat (d # ds)"
          using pat d(2) by (cases pat) auto
        then have "replaceAll pat rep cs = d # replaceAll pat rep ds"
          using d(1) by simp
        moreover have "escaped (replaceAll pat rep ds)"
          using 1(1) d Cons by simp
        ultimately show ?thesis using step c d by simp
      next
        case c: False
        with 1(2) Cons have "\<not> special c" "escaped cs" by auto
        moreover have "escaped (replaceAll pat rep cs)"
          using 1(1) Cons \<open>escaped cs\<close> by simp
        ultimately show ?thesis using step c by simp
      qed
    qed
  qed
qed


lemma wellformed_star_stage:
  "escaped s \<Longrightarrow> wellformed (replaceAll ''*'' ''[^/]*'' s)"
proof (induction s rule: escaped.induct)
  case 1
  then show ?case by simp
next
  case (2 c cs)
  show ?case
  proof (cases "c = CHR 0x5C")
    case True
    with 2(3) obtain d ds where d: "cs = d # ds" "special d" "escaped ds"
      by (auto split: list.splits)
    then have "d \<noteq> CHR ''*''" by (auto simp: special_def)
    with 2(1) True d show ?thesis by simp
  next
    case False
    with 2(3) have cs: "\<not> special c" "escaped cs" by auto
    with 2(2) False have IH: "wellformed (replaceAll ''*'' ''[^/]*'' cs)" by simp
    show ?thesis
    proof (cases "c = CHR ''*''")
      case True
      then show ?thesis using IH by simp
    next
      case c: False
      then show ?thesis using IH cs False by (auto simp: special_def)
    qed
  qed
qed

lemma replaceAll_skip:
  "hd pat \<noteq> c \<Longrightarrow> replaceAll pat rep (c # cs) = c # replaceAll pat rep cs"
  by (cases pat) auto

lemma wellformed_plain_append:
  "\<forall>c \<in> set p. \<not> special c \<and> c \<noteq> CHR ''*'' \<Longrightarrow> wellformed (p @ t) = wellformed t"
  by (induction p) (auto simp: special_def)

lemma wellformed_replaceAll:
  assumes pat: "pat \<noteq> []" "hd pat = CHR ''_''" "\<forall>c \<in> set pat. \<not> special c \<and> c \<noteq> CHR ''*''"
      and rep: "\<And>t. wellformed t \<Longrightarrow> wellformed (rep @ t)"
  shows "wellformed s \<Longrightarrow> wellformed (replaceAll pat rep s)"
proof (induction s rule: length_induct)
  case (1 s)
  note skip = replaceAll_skip [of pat _ rep]
  show ?case
  proof (cases s)
    case Nil
    then show ?thesis by simp
  next
    case (Cons c cs)
    show ?thesis
    proof (cases "prefix pat s")
      case True
      then obtain t where t: "s = pat @ t" by (auto simp: prefix_def)
      with 1(2) pat have "wellformed t" by (simp add: wellformed_plain_append)
      moreover have "length t < length s" using t pat by simp
      ultimately have "wellformed (replaceAll pat rep t)" using 1(1) by blast
      then show ?thesis using pat t rep by (simp add: replaceAll_prefix)
    next
      case False
      then have step: "replaceAll pat rep s = c # replaceAll pat rep cs"
        using Cons by simp
      consider (bs) "c = CHR 0x5C" | (cls) "c = CHR ''[''" | (grp) "c = CHR ''(''"
        | (dot) "c = CHR ''.''" | (plain) "c \<notin> {CHR 0x5C, CHR ''['', CHR ''('', CHR ''.''}"
        by blast
      then show ?thesis
      proof cases
        case bs
        with 1(2) Cons obtain d ds where d: "cs = d # ds" "special d" "wellformed ds"
          by (auto split: list.splits)
        have "hd pat \<noteq> d" using pat d(2) by (auto simp: special_def)
        then have "replaceAll pat rep cs = d # replaceAll pat rep ds"
          using d(1) by (simp add: skip del: replaceAll.simps)
        moreover have "wellformed (replaceAll pat rep ds)"
          using 1(1) d Cons by simp
        ultimately show ?thesis using step bs d by simp
      next
        case cls
        with 1(2) Cons obtain t where t: "cs = ''^/]*'' @ t" "wellformed t"
          by (auto simp: prefix_def)
        have "wellformed (replaceAll pat rep t)" using 1(1) t Cons by simp
        then show ?thesis using step cls t pat(2) by (simp add: skip del: replaceAll.simps)
      next
        case grp
        with 1(2) Cons obtain t where t: "cs = ''?:.*/)?'' @ t" "wellformed t"
          by (auto simp: prefix_def)
        have "wellformed (replaceAll pat rep t)" using 1(1) t Cons by simp
        then show ?thesis using step grp t pat(2) by (simp add: skip del: replaceAll.simps)
      next
        case dot
        with 1(2) Cons obtain t where t: "cs = ''*'' @ t" "wellformed t"
          by (auto simp: prefix_def)
        have "wellformed (replaceAll pat rep t)" using 1(1) t Cons by simp
        then show ?thesis using step dot t pat(2) by (simp add: skip del: replaceAll.simps)
      next
        case plain
        with 1(2) Cons have c: "\<not> special c" "c \<noteq> CHR ''*''" "wellformed cs" by auto
        have "wellformed (replaceAll pat rep cs)" using 1(1) Cons c by simp
        then show ?thesis using step plain c by simp
      qed
    qed
  qed
qed

lemma wellformed_regexSource: "wellformed (regexSource pattern)"
proof -
  have e1: "escaped (escapeSpecial pattern)" by (rule escaped_escapeSpecial)
  have e2: "escaped (replaceAll ''**/'' ''___DOUBLESTAR_SLASH___'' (escapeSpecial pattern))"
    by (rule escaped_replaceAll [OF _ _ _ e1]) (simp_all add: special_def)
  have e3: "escaped (replaceAll ''/**'' ''___SLASH_DOUBLESTAR___''
      (replaceAll ''**/'' ''___DOUBLESTAR_SLASH___'' (escapeSpecial pattern)))"
    by (rule escaped_replaceAll [OF _ _ _ e2]) (simp_all add: special_def)
  have e4: "escaped (replaceAll ''**'' ''___DOUBLESTAR___'' (replaceAll ''/**'' ''___SLASH_DOUBLESTAR___''
      (replaceAll ''**/'' ''___DOUBLESTAR_SLASH___'' (escapeSpecial pattern))))"
    by (rule escaped_replaceAll [OF _ _ _ e3]) (simp_all add: special_def)
  note w5 = wellformed_star_stage [OF e4]
  have w6: "wellformed (replaceAll ''___DOUBLESTAR_SLASH___'' ''(?:.*/)?'' (replaceAll ''*'' ''[^/]*''
     (replaceAll ''**'' ''___DOUBLESTAR___'' (replaceAll ''/**'' ''___SLASH_DOUBLESTAR___''
      (replaceAll ''**/'' ''___DOUBLESTAR_SLASH___'' (escapeSpecial pattern))))))"
    by (rule wellformed_replaceAll [OF _ _ _ _ w5]) (simp_all add: special_def)
  have w7: "wellformed (replaceAll ''___SLASH_DOUBLESTAR___'' ''/.*'' (replaceAll ''___DOUBLESTAR_SLASH___'' ''(?:.*/)?'' (replaceAll ''*'' ''[^/]*''
     (replaceAll ''**'' ''___DOUBLESTAR___'' (replaceAll ''/**'' ''___SLASH_DOUBLESTAR___''
      (replaceAll ''**/'' ''___DOUBLESTAR_SLASH___'' (escapeSpecial pattern)))))))"
    by (rule wellformed_replaceAll [OF _ _ _ _ w6]) (simp_all add: special_def)
  show ?thesis unfolding regexSource_def
    by (rule wellformed_replaceAll [OF _ _ _ _ w7]) (simp_all add: special_def)
qed


lemma wellformed_head:
  "wellformed t \<Longrightarrow> hd (t @ ''$'') \<notin> {CHR ''*'', CHR ''+'', CHR ''?''}"
  by (cases t) (auto simp: special_def split: if_splits)

lemma quant_none:
  "s \<noteq> [] \<Longrightarrow> hd s \<notin> {CHR ''*'', CHR ''+'', CHR ''?''} \<Longrightarrow> quant s = (\<lambda>r. r, 0)"
  by (cases s) (auto simp: quant_def)

lemma quant_star:
  "s \<noteq> [] \<Longrightarrow> hd s \<noteq> CHR ''?'' \<Longrightarrow> quant (CHR ''*'' # s) = (Star, 1)"
  by (cases s) (auto simp: quant_def)

lemma quant_opt:
  "s \<noteq> [] \<Longrightarrow> hd s \<noteq> CHR ''?'' \<Longrightarrow> quant (CHR ''?'' # s) = (\<lambda>r. Alt r One, 1)"
  by (cases s) (auto simp: quant_def)

lemma parse_wellformed:
  "wellformed t \<Longrightarrow> \<exists>r. parse [] cur (t @ ''$'') = Some r"
proof (induction t arbitrary: cur rule: length_induct)
  case (1 t)
  have IH: "\<exists>r. parse [] f (u @ ''$'') = Some r" if "length u < length t" "wellformed u" for u f
    using 1(1) that by blast
  show ?case
  proof (cases t)
    case Nil
    then show ?thesis by simp
  next
    case (Cons c cs)
    consider (bs) "c = CHR 0x5C" | (cls) "c = CHR ''[''" | (grp) "c = CHR ''(''"
      | (dot) "c = CHR ''.''" | (plain) "c \<notin> {CHR 0x5C, CHR ''['', CHR ''('', CHR ''.''}"
      by blast
    then show ?thesis
    proof cases
      case bs
      with 1(2) Cons obtain d ds where d: "cs = d # ds" "special d" "wellformed ds"
        by (auto split: list.splits)
      have a: "atom c (cs @ ''$'') = Some (Chr d, 1)"
        using bs d by (auto simp: atom_def special_def syntax_char_def)
      have q: "quant (ds @ ''$'') = (\<lambda>r. r, 0)"
        using wellformed_head [OF d(3)] by (intro quant_none) auto
      have "parse [] cur (t @ ''$'') = parse [] (push cur (Chr d)) (ds @ ''$'')"
        using Cons bs a q d(1) by simp
      moreover have "\<exists>r. parse [] (push cur (Chr d)) (ds @ ''$'') = Some r"
        using d Cons by (intro IH) simp_all
      ultimately show ?thesis by simp
    next
      case cls
      with 1(2) Cons obtain u where u: "cs = ''^/]*'' @ u" "wellformed u"
        by (auto simp: prefix_def)
      have a: "atom c (cs @ ''$'') = Some (Cls True ''/'', 3)"
        using cls u by (simp add: atom_def char_class_def)
      have q: "quant (CHR ''*'' # (u @ ''$'')) = (Star, 1)"
        using wellformed_head [OF u(2)] by (intro quant_star) auto
      have "parse [] cur (t @ ''$'') = parse [] (push cur (Star (Cls True ''/''))) (u @ ''$'')"
        using Cons cls a q u(1) by simp
      moreover have "\<exists>r. parse [] (push cur (Star (Cls True ''/''))) (u @ ''$'') = Some r"
        using u Cons by (intro IH) simp_all
      ultimately show ?thesis by simp
    next
      case grp
      with 1(2) Cons obtain u where u: "cs = ''?:.*/)?'' @ u" "wellformed u"
        by (auto simp: prefix_def)
      have q: "quant (CHR ''?'' # (u @ ''$'')) = (\<lambda>r. Alt r One, 1)"
        using wellformed_head [OF u(2)] by (intro quant_opt) auto
      have "parse [] cur (t @ ''$'') =
          parse [] (push cur (Alt (close (push (push ([], []) (Star Dot)) (Chr CHR ''/''))) One)) (u @ ''$'')"
        using Cons grp q u(1) by (simp add: atom_def quant_def)
      moreover have "\<exists>r. parse [] (push cur (Alt (close (push (push ([], []) (Star Dot)) (Chr CHR ''/''))) One)) (u @ ''$'') = Some r"
        using u Cons by (intro IH) simp_all
      ultimately show ?thesis by simp
    next
      case dot
      with 1(2) Cons obtain u where u: "cs = ''*'' @ u" "wellformed u"
        by (auto simp: prefix_def)
      have q: "quant (CHR ''*'' # (u @ ''$'')) = (Star, 1)"
        using wellformed_head [OF u(2)] by (intro quant_star) auto
      have "parse [] cur (t @ ''$'') = parse [] (push cur (Star Dot)) (u @ ''$'')"
        using Cons dot q u(1) by (simp add: atom_def)
      moreover have "\<exists>r. parse [] (push cur (Star Dot)) (u @ ''$'') = Some r"
        using u Cons by (intro IH) simp_all
      ultimately show ?thesis by simp
    next
      case plain
      with 1(2) Cons have c: "\<not> special c" "c \<noteq> CHR ''*''" "wellformed cs" by auto
      have a: "atom c (cs @ ''$'') = Some (Chr c, 0)"
        using plain c by (auto simp: atom_def special_def)
      have q: "quant (cs @ ''$'') = (\<lambda>r. r, 0)"
        using wellformed_head [OF c(3)] by (intro quant_none) auto
      have "parse [] cur (t @ ''$'') = parse [] (push cur (Chr c)) (cs @ ''$'')"
        using Cons plain c a q by (auto simp: special_def)
      moreover have "\<exists>r. parse [] (push cur (Chr c)) (cs @ ''$'') = Some r"
        using c Cons by (intro IH) simp_all
      ultimately show ?thesis by simp
    qed
  qed
qed

lemma parse_regexSource: "\<exists>r. parse [] ([], []) (anchored (regexSource pattern)) = Some r"
  using parse_wellformed [OF wellformed_regexSource, of "push ([], []) Bol" pattern]
  by (simp add: anchored_def)

section \<open>The matcher against the meaning of an expression\<close>

inductive_simps matches_Zero [simp]: "matches b e Zero w"
inductive_simps matches_One [simp]: "matches b e One w"
inductive_simps matches_Chr [simp]: "matches b e (Chr c) w"
inductive_simps matches_Dot [simp]: "matches b e Dot w"
inductive_simps matches_Cls [simp]: "matches b e (Cls n ms) w"
inductive_simps matches_Seq: "matches b e (Seq r s) w"
inductive_simps matches_Alt [simp]: "matches b e (Alt r s) w"
inductive_simps matches_Star: "matches b e (Star r) w"
inductive_simps matches_Bol [simp]: "matches b e Bol w"
inductive_simps matches_Eol [simp]: "matches b e Eol w"


lemma matches_seq [simp]: "matches b e (seq r s) w = matches b e (Seq r s) w"
  by (auto simp: seq_def matches_Seq)

lemma matches_alt [simp]: "matches b e (alt r s) w = (matches b e r w \<or> matches b e s w)"
  by (auto simp: alt_def)

lemma nullable_matches: "nullable b e r = matches b e r []"
  by (induction r arbitrary: b e) (auto simp: matches_Seq intro: m_StarNil)

lemma matches_Star_Cons:
  "matches b e (Star r) (c # w) \<Longrightarrow>
     \<exists>u v. w = u @ v \<and> matches b (e \<and> v = []) r (c # u) \<and> matches False e (Star r) v"
proof (induction b e "Star r" "c # w" arbitrary: w rule: matches.induct)
  case (m_StarStep b e v u)
  show ?case
  proof (cases u)
    case Nil
    with m_StarStep show ?thesis by simp
  next
    case (Cons d u')
    with m_StarStep(1,3,5) show ?thesis by auto
  qed
qed

lemma deriv_matches:
  "matches b e r (c # w) = matches False e (deriv b c r) w"
proof (induction r arbitrary: b e w)
  case (Seq r s)
  show ?case
  proof
    assume "matches b e (Seq r s) (c # w)"
    then obtain u v where uv: "c # w = u @ v" "matches b (e \<and> v = []) r u" "matches (b \<and> u = []) e s v"
      by (auto simp: matches_Seq)
    show "matches False e (deriv b c (Seq r s)) w"
    proof (cases u)
      case Nil
      with uv have "nullable b False r" "matches b e s (c # w)"
        by (auto simp: nullable_matches)
      then show ?thesis using Seq.IH(2) by simp
    next
      case (Cons d u')
      with uv have "matches False (e \<and> v = []) (deriv b c r) u'" "matches False e s v" "w = u' @ v"
        using Seq.IH(1) by auto
      then have "matches False e (Seq (deriv b c r) s) w"
        using m_Seq [of False e v "deriv b c r" u' s] by simp
      then show ?thesis by simp
    qed
  next
    assume "matches False e (deriv b c (Seq r s)) w"
    then consider (l) "matches False e (Seq (deriv b c r) s) w"
      | (r) "nullable b False r" "matches False e (deriv b c s) w"
      by (auto split: if_splits)
    then show "matches b e (Seq r s) (c # w)"
    proof cases
      case l
      then obtain u v where uv: "w = u @ v" "matches False (e \<and> v = []) (deriv b c r) u"
        "matches False e s v" by (auto simp: matches_Seq)
      then have "matches b (e \<and> v = []) r (c # u)" using Seq.IH(1) by simp
      with uv(3) have "matches b e (Seq r s) ((c # u) @ v)"
        by (intro m_Seq) simp_all
      then show ?thesis using uv(1) by simp
    next
      case r
      then have "matches b (e \<and> c # w = []) r []" "matches (b \<and> ([]::string) = []) e s (c # w)"
        using Seq.IH(2) by (simp_all add: nullable_matches)
      then have "matches b e (Seq r s) ([] @ c # w)" by (rule m_Seq)
      then show ?thesis by simp
    qed
  qed
next
  case (Star r)
  show ?case
  proof
    assume "matches b e (Star r) (c # w)"
    from matches_Star_Cons [OF this] obtain u v where
      uv: "w = u @ v" "matches b (e \<and> v = []) r (c # u)" "matches False e (Star r) v" by blast
    then have "matches False (e \<and> v = []) (deriv b c r) u" using Star.IH by simp
    with uv(3) have "matches False e (Seq (deriv b c r) (Star r)) (u @ v)"
      by (intro m_Seq) simp_all
    then show "matches False e (deriv b c (Star r)) w" using uv(1) by simp
  next
    assume "matches False e (deriv b c (Star r)) w"
    then obtain u v where uv: "w = u @ v" "matches False (e \<and> v = []) (deriv b c r) u"
      "matches False e (Star r) v" by (auto simp: matches_Seq)
    then have "matches b (e \<and> v = []) r (c # u)" using Star.IH by simp
    with uv(3) have "matches b e (Star r) ((c # u) @ v)"
      by (intro m_StarStep) simp_all
    then show "matches b e (Star r) (c # w)" using uv(1) by simp
  qed
qed auto

lemma run_matches: "run b r w = matches b True r w"
  by (induction w arbitrary: b r) (simp_all add: nullable_matches deriv_matches)

lemma parse_items:
  "wellformed t \<Longrightarrow> parse [] (alts, sq) (t @ ''$'') = Some (close (alts, sq @ items t @ [Eol]))"
proof (induction t arbitrary: sq rule: length_induct)
  case (1 t)
  have IH: "parse [] (alts, sq') (u @ ''$'') = Some (close (alts, sq' @ items u @ [Eol]))"
    if "length u < length t" "wellformed u" for u sq'
    using 1(1) that by blast
  show ?case
  proof (cases t)
    case Nil
    then show ?thesis by (simp add: push_def)
  next
    case (Cons c cs)
    consider (bs) "c = CHR 0x5C" | (cls) "c = CHR ''[''" | (grp) "c = CHR ''(''"
      | (dot) "c = CHR ''.''" | (plain) "c \<notin> {CHR 0x5C, CHR ''['', CHR ''('', CHR ''.''}"
      by blast
    then show ?thesis
    proof cases
      case bs
      with 1(2) Cons obtain d ds where d: "cs = d # ds" "special d" "wellformed ds"
        by (auto split: list.splits)
      have a: "atom c (cs @ ''$'') = Some (Chr d, 1)"
        using bs d by (auto simp: atom_def special_def syntax_char_def)
      have q: "quant (ds @ ''$'') = (\<lambda>r. r, 0)"
        using wellformed_head [OF d(3)] by (intro quant_none) auto
      have "parse [] (alts, sq) (t @ ''$'') = parse [] (alts, sq @ [Chr d]) (ds @ ''$'')"
        using Cons bs a q d(1) by (simp add: push_def)
      also have "\<dots> = Some (close (alts, (sq @ [Chr d]) @ items ds @ [Eol]))"
        using d Cons by (intro IH) simp_all
      finally show ?thesis using Cons bs d by simp
    next
      case cls
      with 1(2) Cons obtain u where u: "cs = ''^/]*'' @ u" "wellformed u"
        by (auto simp: prefix_def)
      have a: "atom c (cs @ ''$'') = Some (Cls True ''/'', 3)"
        using cls u by (simp add: atom_def char_class_def)
      have q: "quant (CHR ''*'' # (u @ ''$'')) = (Star, 1)"
        using wellformed_head [OF u(2)] by (intro quant_star) auto
      have "parse [] (alts, sq) (t @ ''$'') = parse [] (alts, sq @ [Star (Cls True ''/'')]) (u @ ''$'')"
        using Cons cls a q u(1) by (simp add: push_def)
      also have "\<dots> = Some (close (alts, (sq @ [Star (Cls True ''/'')]) @ items u @ [Eol]))"
        using u Cons by (intro IH) simp_all
      finally show ?thesis using Cons cls u by simp
    next
      case grp
      with 1(2) Cons obtain u where u: "cs = ''?:.*/)?'' @ u" "wellformed u"
        by (auto simp: prefix_def)
      have q: "quant (CHR ''?'' # (u @ ''$'')) = (\<lambda>r. Alt r One, 1)"
        using wellformed_head [OF u(2)] by (intro quant_opt) auto
      have "parse [] (alts, sq) (t @ ''$'') =
          parse [] (alts, sq @ [Alt (Seq (Star Dot) (Seq (Chr CHR ''/'') One)) One]) (u @ ''$'')"
        using Cons grp q u(1) by (simp add: atom_def quant_def push_def close_def mk_seq_def)
      also have "\<dots> = Some (close (alts, (sq @ [Alt (Seq (Star Dot) (Seq (Chr CHR ''/'') One)) One]) @ items u @ [Eol]))"
        using u Cons by (intro IH) simp_all
      finally show ?thesis using Cons grp u by simp
    next
      case dot
      with 1(2) Cons obtain u where u: "cs = ''*'' @ u" "wellformed u"
        by (auto simp: prefix_def)
      have q: "quant (CHR ''*'' # (u @ ''$'')) = (Star, 1)"
        using wellformed_head [OF u(2)] by (intro quant_star) auto
      have "parse [] (alts, sq) (t @ ''$'') = parse [] (alts, sq @ [Star Dot]) (u @ ''$'')"
        using Cons dot q u(1) by (simp add: atom_def push_def)
      also have "\<dots> = Some (close (alts, (sq @ [Star Dot]) @ items u @ [Eol]))"
        using u Cons by (intro IH) simp_all
      finally show ?thesis using Cons dot u by simp
    next
      case plain
      with 1(2) Cons have c: "\<not> special c" "c \<noteq> CHR ''*''" "wellformed cs" by auto
      have a: "atom c (cs @ ''$'') = Some (Chr c, 0)"
        using plain c by (auto simp: atom_def special_def)
      have q: "quant (cs @ ''$'') = (\<lambda>r. r, 0)"
        using wellformed_head [OF c(3)] by (intro quant_none) auto
      have "parse [] (alts, sq) (t @ ''$'') = parse [] (alts, sq @ [Chr c]) (cs @ ''$'')"
        using Cons plain c a q by (auto simp: special_def push_def)
      also have "\<dots> = Some (close (alts, (sq @ [Chr c]) @ items cs @ [Eol]))"
        using c Cons by (intro IH) simp_all
      finally show ?thesis using Cons plain by simp
    qed
  qed
qed

lemma parse_anchored:
  "parse [] ([], []) (anchored (regexSource pattern)) = Some (regex pattern)"
  using parse_items [OF wellformed_regexSource, of "[]" "[Bol]" pattern]
  by (simp add: anchored_def push_def close_def regex_def)

lemma compile_items:
  "compile (anchored (regexSource pattern))
     = (if tooLarge (regex pattern) then None else Some (regex pattern))"
  by (simp add: compile_def parse_anchored)

lemma compiles_iff: "compiles pattern = (\<not> tooLarge (regex pattern))"
  by (simp add: compiles_def compile_items)

lemma matches_any_star: "matches b e (Star any_char) w"
proof (induction w arbitrary: b)
  case Nil
  show ?case by (rule m_StarNil)
next
  case (Cons c w)
  have 1: "matches b (e \<and> w = []) any_char [c]" unfolding any_char_def by (rule m_Cls) simp
  have 2: "matches (b \<and> [c] = []) e (Star any_char) w" by (rule Cons)
  from m_StarStep [OF 1 2] show ?case by simp
qed

inductive_cases SeqE: "matches b e (Seq r s) w"

lemma t0: "test r s = matches True True (Seq (Star any_char) (Seq r (Star any_char))) s"
  unfolding test_def by (rule run_matches)

lemma test_matches:
  "test r s = (\<exists>u v w. s = u @ v @ w \<and> matches (u = []) (w = []) r v)"
proof
  assume "test r s"
  then have "matches True True (Seq (Star any_char) (Seq r (Star any_char))) s"
    by (simp only: t0)
  then obtain u x where ux: "s = u @ x" "matches (True \<and> u = []) True (Seq r (Star any_char)) x"
    by (rule SeqE)
  from ux(2) obtain v w where vw: "x = v @ w" "matches (True \<and> u = []) (True \<and> w = []) r v"
    by (rule SeqE)
  from vw(2) have "matches (u = []) (w = []) r v" by simp
  with ux(1) vw(1) show "\<exists>u v w. s = u @ v @ w \<and> matches (u = []) (w = []) r v" by blast
next
  assume "\<exists>u v w. s = u @ v @ w \<and> matches (u = []) (w = []) r v"
  then obtain u v w where uvw: "s = u @ v @ w" "matches (u = []) (w = []) r v" by blast
  have 1: "matches (True \<and> u = []) (True \<and> w = []) r v" using uvw(2) by simp
  have 2: "matches ((True \<and> u = []) \<and> v = []) True (Star any_char) w" by (rule matches_any_star)
  have 3: "matches True (True \<and> v @ w = []) (Star any_char) u" by (rule matches_any_star)
  from m_Seq [OF 3 m_Seq [OF 1 2]] show "test r s" by (simp only: t0 uvw(1))
qed

lemma anchor_free_items: "\<forall>r \<in> set (items s). anchor_free r"
proof (induction s rule: length_induct)
  case (1 s)
  have IH: "\<forall>r \<in> set (items u). anchor_free r" if "length u < length s" for u
    using 1 that by blast
  show ?case
  proof (cases s)
    case Nil
    then show ?thesis by simp
  next
    case (Cons c cs)
    have a: "\<forall>r \<in> set (items (drop n cs)). anchor_free r" for n
      using Cons by (intro IH) simp
    have b: "\<forall>r \<in> set (items ds). anchor_free r" if "cs = d # ds" for d ds
      using Cons that by (intro IH) simp
    have "set (items (c # cs)) \<subseteq> {r. anchor_free r}"
      using a [of 0] a [of 1] a [of 4] a [of 7] b
      by (subst items.simps(2)) (auto split: list.splits simp del: items.simps)
    then show ?thesis using Cons by blast
  qed
qed


lemma anchor_free_matches:
  "matches b e r w \<Longrightarrow> anchor_free r \<Longrightarrow> matches b' e' r w"
proof (induction arbitrary: b' e' rule: matches.induct)
  case (m_Seq b e v r u s)
  then show ?case by (auto intro: matches.m_Seq)
next
  case (m_StarStep b e v r u)
  then show ?case by (auto intro: matches.m_StarStep)
qed (auto intro: matches.intros)

lemma anchor_free_mk_seq: "\<forall>r \<in> set rs. anchor_free r \<Longrightarrow> anchor_free (mk_seq rs)"
  by (induction rs) (auto simp: mk_seq_def)

lemma mk_seq_Cons: "mk_seq (r # rs) = Seq r (mk_seq rs)"
  by (simp add: mk_seq_def)

lemma matches_Eol_tail:
  "matches b e (mk_seq (rs @ [Eol])) v = (e \<and> matches b e (mk_seq rs) v)"
proof (induction rs arbitrary: b e v)
  case Nil
  show ?case
  proof
    assume "matches b e (mk_seq ([] @ [Eol])) v"
    then have "matches b e (Seq Eol One) v" by (simp add: mk_seq_def)
    then show "e \<and> matches b e (mk_seq []) v"
      by (rule SeqE) (auto simp: mk_seq_def)
  next
    assume "e \<and> matches b e (mk_seq []) v"
    then have e: e and v: "v = []" by (auto simp: mk_seq_def)
    have 1: "matches b (e \<and> ([]::string) = []) Eol []" using e by simp
    have 2: "matches (b \<and> ([]::string) = []) e One []" by simp
    from m_Seq [OF 1 2] show "matches b e (mk_seq ([] @ [Eol])) v" by (simp add: mk_seq_def v)
  qed
next
  case (Cons r rs)
  show ?case
  proof
    assume "matches b e (mk_seq ((r # rs) @ [Eol])) v"
    then have "matches b e (Seq r (mk_seq (rs @ [Eol]))) v" by (simp add: mk_seq_Cons)
    then obtain u x where ux: "v = u @ x" "matches b (e \<and> x = []) r u"
      "matches (b \<and> u = []) e (mk_seq (rs @ [Eol])) x" by (rule SeqE)
    from ux(3) have e: e and x: "matches (b \<and> u = []) e (mk_seq rs) x" by (auto simp: Cons)
    from m_Seq [OF ux(2) x] e ux(1) show "e \<and> matches b e (mk_seq (r # rs)) v"
      by (simp add: mk_seq_Cons)
  next
    assume "e \<and> matches b e (mk_seq (r # rs)) v"
    then have e: e and "matches b e (Seq r (mk_seq rs)) v" by (auto simp: mk_seq_Cons)
    then obtain u x where ux: "v = u @ x" "matches b (e \<and> x = []) r u"
      "matches (b \<and> u = []) e (mk_seq rs) x" by (auto elim: SeqE)
    from ux(3) e have "matches (b \<and> u = []) e (mk_seq (rs @ [Eol])) x" by (simp add: Cons)
    from m_Seq [OF ux(2) this] ux(1) show "matches b e (mk_seq ((r # rs) @ [Eol])) v"
      by (simp add: mk_seq_Cons)
  qed
qed

lemma test_anchored:
  "test (mk_seq (Bol # rs @ [Eol])) s = accepts rs s"
proof
  assume "test (mk_seq (Bol # rs @ [Eol])) s"
  then obtain u v w where uvw: "s = u @ v @ w"
    "matches (u = []) (w = []) (Seq Bol (mk_seq (rs @ [Eol]))) v"
    by (auto simp: test_matches mk_seq_Cons)
  from uvw(2) obtain x y where xy: "v = x @ y" "matches (u = []) (w = [] \<and> y = []) Bol x"
    "matches (u = [] \<and> x = []) (w = []) (mk_seq (rs @ [Eol])) y" by (rule SeqE)
  from xy(2) have u: "u = []" and x: "x = []" by simp_all
  from xy(3) have w: "w = []" and "matches (u = [] \<and> x = []) (w = []) (mk_seq rs) y"
    by (auto simp: matches_Eol_tail)
  then have "matches True True (mk_seq rs) y" using u x by simp
  then show "accepts rs s" using uvw(1) xy(1) u x w by (simp add: accepts_def)
next
  assume "accepts rs s"
  then have "matches True True (mk_seq (rs @ [Eol])) s"
    by (simp add: accepts_def matches_Eol_tail)
  then have 2: "matches (([]::string) = [] \<and> ([]::string) = []) (([]::string) = []) (mk_seq (rs @ [Eol])) s"
    by simp
  have 1: "matches (([]::string) = []) (([]::string) = [] \<and> s = []) Bol []" by simp
  from m_Seq [OF 1 2] have "matches (([]::string) = []) (([]::string) = []) (mk_seq (Bol # rs @ [Eol])) s"
    by (simp add: mk_seq_Cons)
  then have "\<exists>u v w. s = u @ v @ w \<and> matches (u = []) (w = []) (mk_seq (Bol # rs @ [Eol])) v"
    by (intro exI [of _ "[]"] exI [of _ s]) simp
  then show "test (mk_seq (Bol # rs @ [Eol])) s" by (simp only: test_matches)
qed

lemma matchPattern_accepts:
  "matchPattern filePath pattern
     = (if compiles pattern then Inr (accepts (items (regexSource pattern)) filePath)
        else Inl SyntaxError)"
  by (simp add: matchPattern_def compile_items compiles_iff test_anchored regex_def)

lemma matchPattern_compiles:
  "compiles pattern \<Longrightarrow>
     matchPattern filePath pattern = Inr (accepts (items (regexSource pattern)) filePath)"
  by (simp add: matchPattern_accepts)



lemma matches_mk_seq_Nil [simp]: "matches b e (mk_seq []) w = (w = [])"
  by (simp add: mk_seq_def)

lemma matches_mk_seq_Cons:
  "matches b e (mk_seq (r # rs)) w =
     (\<exists>u v. w = u @ v \<and> matches b (e \<and> v = []) r u \<and> matches (b \<and> u = []) e (mk_seq rs) v)"
  unfolding mk_seq_Cons
proof
  assume "matches b e (Seq r (mk_seq rs)) w"
  then show "\<exists>u v. w = u @ v \<and> matches b (e \<and> v = []) r u \<and> matches (b \<and> u = []) e (mk_seq rs) v"
    by (rule SeqE) blast
next
  assume "\<exists>u v. w = u @ v \<and> matches b (e \<and> v = []) r u \<and> matches (b \<and> u = []) e (mk_seq rs) v"
  then obtain u v where "w = u @ v" "matches b (e \<and> v = []) r u" "matches (b \<and> u = []) e (mk_seq rs) v"
    by blast
  then show "matches b e (Seq r (mk_seq rs)) w" using m_Seq by blast
qed

lemma matches_Chr_Cons [simp]:
  "matches b e (mk_seq (Chr c # rs)) w = (\<exists>v. w = c # v \<and> matches False e (mk_seq rs) v)"
  by (auto simp: matches_mk_seq_Cons)

lemma matches_Star_single:
  assumes single: "\<And>b e w. matches b e r w = (\<exists>c. w = [c] \<and> P c)"
  shows "matches b e (Star r) w = (\<forall>c \<in> set w. P c)"
proof
  assume "matches b e (Star r) w"
  then show "\<forall>c \<in> set w. P c"
  proof (induction b e "Star r" w rule: matches.induct)
    case (m_StarNil b e)
    then show ?case by simp
  next
    case (m_StarStep b e v u)
    then show ?case using single by auto
  qed
next
  show "\<forall>c \<in> set w. P c \<Longrightarrow> matches b e (Star r) w"
  proof (induction w arbitrary: b)
    case Nil
    show ?case by (rule m_StarNil)
  next
    case (Cons c w)
    have 1: "matches b (e \<and> w = []) r [c]" using Cons.prems single by simp
    have 2: "matches (b \<and> [c] = []) e (Star r) w" using Cons by simp
    from m_StarStep [OF 1 2] show ?case by simp
  qed
qed

lemma matches_Star_Cls: "matches b e (Star (Cls n ms)) w = (\<forall>c \<in> set w. (c \<in> set ms) \<noteq> n)"
  by (rule matches_Star_single) auto

lemma matches_Star_Dot: "matches b e (Star Dot) w = (\<forall>c \<in> set w. \<not> line_terminator c)"
  by (rule matches_Star_single) auto

lemma matches_segment_Cons:
  "matches b e (mk_seq (Star (Cls True ''/'') # rs)) w =
     (\<exists>u v. w = u @ v \<and> CHR ''/'' \<notin> set u \<and> matches (b \<and> u = []) e (mk_seq rs) v)"
  by (auto simp: matches_mk_seq_Cons matches_Star_Cls)

lemma matches_rest_Cons:
  "matches b e (mk_seq (Star Dot # rs)) w =
     (\<exists>u v. w = u @ v \<and> (\<forall>c \<in> set u. \<not> line_terminator c) \<and> matches (b \<and> u = []) e (mk_seq rs) v)"
  by (auto simp: matches_mk_seq_Cons matches_Star_Dot)

lemma matches_dirs:
  "matches b e (Alt (Seq (Star Dot) (Seq (Chr CHR ''/'') One)) One) w =
     (w = [] \<or> (\<exists>u. w = u @ ''/'' \<and> (\<forall>c \<in> set u. \<not> line_terminator c)))"
proof -
  have "matches b e (Seq (Star Dot) (Seq (Chr CHR ''/'') One)) w
      = matches b e (mk_seq [Star Dot, Chr CHR ''/'']) w"
    by (simp add: mk_seq_def)
  also have "\<dots> = (\<exists>u. w = u @ ''/'' \<and> (\<forall>c \<in> set u. \<not> line_terminator c))"
    by (simp add: matches_rest_Cons)
  finally show ?thesis by auto
qed

lemma matches_dirs_Cons:
  "matches b e (mk_seq (Alt (Seq (Star Dot) (Seq (Chr CHR ''/'') One)) One # rs)) w =
     (matches b e (mk_seq rs) w
      \<or> (\<exists>u v. w = u @ ''/'' @ v \<and> (\<forall>c \<in> set u. \<not> line_terminator c)
            \<and> matches False e (mk_seq rs) v))"
  (is "?L = (?A \<or> ?B)")
proof
  assume ?L
  then obtain u v where uv: "w = u @ v"
    "matches b (e \<and> v = []) (Alt (Seq (Star Dot) (Seq (Chr CHR ''/'') One)) One) u"
    "matches (b \<and> u = []) e (mk_seq rs) v"
    unfolding matches_mk_seq_Cons by blast
  from uv(2) consider "u = []" | u' where "u = u' @ ''/''" "\<forall>c \<in> set u'. \<not> line_terminator c"
    unfolding matches_dirs by blast
  then show "?A \<or> ?B"
  proof cases
    case 1
    with uv show ?thesis by simp
  next
    case 2
    with uv(3) have "matches False e (mk_seq rs) v" by simp
    with 2 uv(1) have ?B by auto
    then show ?thesis ..
  qed
next
  assume "?A \<or> ?B"
  then show ?L
  proof
    assume ?A
    moreover have "matches b (e \<and> w = []) (Alt (Seq (Star Dot) (Seq (Chr CHR ''/'') One)) One) []"
      unfolding matches_dirs by simp
    ultimately show ?L unfolding matches_mk_seq_Cons
      by (intro exI [of _ "[]"] exI [of _ w]) simp
  next
    assume ?B
    then obtain u v where uv: "w = u @ ''/'' @ v" "\<forall>c \<in> set u. \<not> line_terminator c"
      "matches False e (mk_seq rs) v" by blast
    have "matches b (e \<and> v = []) (Alt (Seq (Star Dot) (Seq (Chr CHR ''/'') One)) One) (u @ ''/'')"
      unfolding matches_dirs using uv(2) by blast
    with uv(1,3) show ?L unfolding matches_mk_seq_Cons
      by (intro exI [of _ "u @ ''/''"] exI [of _ v]) simp
  qed
qed

lemma regroup:
  "(\<exists>u v. p = u @ c # v \<and> P u \<and> (\<exists>n. v = n @ t \<and> Q n)) = (\<exists>d n. p = d @ c # n @ t \<and> P d \<and> Q n)"
  by auto

lemma matches_lit_append:
  "matches b e (mk_seq (lit l @ rs)) w = (\<exists>v. w = l @ v \<and> matches (b \<and> l = []) e (mk_seq rs) v)"
  by (induction l arbitrary: b w) (auto simp: lit_def)

lemma matches_lit: "matches b e (mk_seq (lit l)) w = (w = l)"
  using matches_lit_append [of b e l "[]" w] by simp

lemma regexSource_examples:
  "regexSource ''src/*.ts'' = ''src/[^/]*'' @ [CHR 0x5C] @ ''.ts''"
  "regexSource ''**/*.ts'' = ''(?:.*/)?[^/]*'' @ [CHR 0x5C] @ ''.ts''"
  "regexSource ''src/**/*.ts'' = ''src/(?:.*/)?[^/]*'' @ [CHR 0x5C] @ ''.ts''"
  by code_simp+

lemma items_examples:
  "items (regexSource ''src/*.ts'') = lit ''src/'' @ Star (Cls True ''/'') # lit ''.ts''"
  "items (regexSource ''**/*.ts'') = Alt (Seq (Star Dot) (Seq (Chr CHR ''/'') One)) One
      # Star (Cls True ''/'') # lit ''.ts''"
  "items (regexSource ''src/**/*.ts'') = lit ''src/''
      @ Alt (Seq (Star Dot) (Seq (Chr CHR ''/'') One)) One # Star (Cls True ''/'') # lit ''.ts''"
  by (simp_all add: regexSource_examples lit_def)

lemma segment_then_suffix:
  "matches b e (mk_seq (Star (Cls True ''/'') # lit t)) w = (\<exists>n. w = n @ t \<and> CHR ''/'' \<notin> set n)"
  by (simp add: matches_segment_Cons matches_lit)

lemma compiles_examples:
  "compiles ''src/*.ts''" "compiles ''**/*.ts''" "compiles ''src/**/*.ts''"
  by code_simp+

lemma single_star_segment:
  "matchPattern p ''src/*.ts'' = Inr (\<exists>n. p = ''src/'' @ n @ ''.ts'' \<and> CHR ''/'' \<notin> set n)"
  unfolding matchPattern_compiles [OF compiles_examples(1)] accepts_def items_examples
    matches_lit_append segment_then_suffix
  by blast

lemma doublestar_segments:
  "matchPattern p ''**/*.ts'' = Inr ((\<exists>n. p = n @ ''.ts'' \<and> CHR ''/'' \<notin> set n)
      \<or> (\<exists>d n. p = d @ ''/'' @ n @ ''.ts'' \<and> (\<forall>c \<in> set d. \<not> line_terminator c)
            \<and> CHR ''/'' \<notin> set n))"
  unfolding matchPattern_compiles [OF compiles_examples(2)] accepts_def items_examples
    matches_dirs_Cons segment_then_suffix
  by blast

lemma doublestar_inner_segments:
  "matchPattern p ''src/**/*.ts'' = Inr ((\<exists>n. p = ''src/'' @ n @ ''.ts'' \<and> CHR ''/'' \<notin> set n)
      \<or> (\<exists>d n. p = ''src/'' @ d @ ''/'' @ n @ ''.ts'' \<and> (\<forall>c \<in> set d. \<not> line_terminator c)
            \<and> CHR ''/'' \<notin> set n))"
  unfolding matchPattern_compiles [OF compiles_examples(3)] accepts_def items_examples
    matches_lit_append matches_dirs_Cons segment_then_suffix
  by blast

section \<open>The size limit of the run-time\<close>

lemma escapeSpecial_append: "escapeSpecial (a @ b) = escapeSpecial a @ escapeSpecial b"
  by (simp add: escapeSpecial_def)


lemma replaceAll_absent: "hd pat \<notin> set s \<Longrightarrow> replaceAll pat rep s = s"
  by (induction s) (auto simp: replaceAll_skip simp del: replaceAll.simps(2))

lemma items_tokens:
  "items (CHR 0x5C # d # t) = Chr d # items t"
  "items (''[^/]*'' @ t) = Star (Cls True ''/'') # items t"
  "items (''(?:.*/)?'' @ t) = Alt (Seq (Star Dot) (Seq (Chr CHR ''/'') One)) One # items t"
  "items (''.*'' @ t) = Star Dot # items t"
  "\<not> special c \<Longrightarrow> items (c # t) = Chr c # items t"
  by (auto simp: special_def)
















section \<open>Patterns with one wildcard between literal parts\<close>

lemma replaceAll_no_sublist: "\<not> sublist pat s \<Longrightarrow> replaceAll pat rep s = s"
proof (induction s)
  case Nil
  then show ?case by simp
next
  case (Cons c cs)
  from Cons(2) have np: "\<not> prefix pat (c # cs)" and ns: "\<not> sublist pat cs"
    by (auto simp: sublist_Cons_right)
  from np have "replaceAll pat rep (c # cs) = c # replaceAll pat rep cs"
    by (rule replaceAll_no_match)
  with Cons(1) [OF ns] show ?case by simp
qed

lemma sublist_marker:
  assumes "sublist l m" "\<not> sublist l s"
  shows "\<not> sublist m s"
proof
  assume "sublist m s"
  with assms(1) have "sublist l s" by (rule sublist_order.order_trans)
  with assms(2) show False ..
qed

lemma prefix_escapeSpecial:
  "\<forall>c \<in> set l. \<not> special c \<Longrightarrow> prefix l (escapeSpecial d) \<Longrightarrow> prefix l d"
proof (induction l arbitrary: d)
  case Nil
  then show ?case by simp
next
  case (Cons x xs)
  show ?case
  proof (cases d)
    case Nil
    with Cons(3) show ?thesis by (simp add: escapeSpecial_def)
  next
    case d: (Cons c cs)
    show ?thesis
    proof (cases "special c")
      case True
      with Cons(3) have "x = CHR 0x5C" by (simp add: d escapeSpecial_def)
      with Cons(2) show ?thesis by simp
    next
      case False
      with Cons(3) have "x = c" "prefix xs (escapeSpecial cs)"
        by (simp_all add: d escapeSpecial_def)
      moreover from Cons(2) have "\<forall>c \<in> set xs. \<not> special c" by simp
      ultimately show ?thesis using Cons(1) [of cs] by (simp add: d)
    qed
  qed
qed

lemma sublist_escapeSpecial:
  assumes plain: "\<forall>c \<in> set l. \<not> special c"
  shows "sublist l (escapeSpecial d) \<Longrightarrow> sublist l d"
proof (induction d)
  case Nil
  then show ?case by (simp add: escapeSpecial_def)
next
  case (Cons c cs)
  have pre: "sublist l (c # cs)" if "prefix l (escapeSpecial (c # cs))"
    using prefix_escapeSpecial [OF plain that] by (rule prefix_imp_sublist)
  have rest: "sublist l (c # cs)" if "sublist l (escapeSpecial cs)"
    using Cons(1) [OF that] by (simp add: sublist_Cons_right)
  show ?case
  proof (cases "special c")
    case False
    then have "escapeSpecial (c # cs) = c # escapeSpecial cs" by (simp add: escapeSpecial_def)
    with Cons(2) pre rest show ?thesis by (auto simp: sublist_Cons_right)
  next
    case True
    then have e: "escapeSpecial (c # cs) = CHR 0x5C # c # escapeSpecial cs"
      by (simp add: escapeSpecial_def)
    from Cons(2) consider "prefix l (escapeSpecial (c # cs))"
      | "prefix l (c # escapeSpecial cs)" | "sublist l (escapeSpecial cs)"
      unfolding e by (auto simp: sublist_Cons_right)
    then show ?thesis
    proof cases
      case 1
      then show ?thesis by (rule pre)
    next
      case 2
      have "l = []"
      proof (cases l)
        case Nil
        then show ?thesis .
      next
        case l: (Cons x xs)
        with 2 have "x = c" by simp
        with plain True show ?thesis by (simp add: l)
      qed
      then show ?thesis by simp
    next
      case 3
      then show ?thesis by (rule rest)
    qed
  qed
qed

lemma sublist_after:
  assumes "set l \<inter> set m = {}"
  shows "sublist l (m @ v) \<Longrightarrow> sublist l v"
  using assms
proof (induction m)
  case Nil
  then show ?case by simp
next
  case (Cons c m)
  from Cons(3) have d: "set l \<inter> set m = {}" and c: "c \<notin> set l" by auto
  from Cons(2) consider "prefix l (c # m @ v)" | "sublist l (m @ v)"
    by (auto simp: sublist_Cons_right)
  then show ?case
  proof cases
    case 1
    with c have "l = []" by (cases l) auto
    then show ?thesis by simp
  next
    case 2
    then show ?thesis using d by (rule Cons(1))
  qed
qed

lemma sublist_sep:
  assumes d: "set l \<inter> set m = {}" and m: "m \<noteq> []"
  shows "sublist l (u @ m @ v) \<Longrightarrow> sublist l u \<or> sublist l v"
proof (induction u)
  case Nil
  then show ?case using sublist_after [OF d] by simp
next
  case (Cons c u)
  from Cons(2) consider "prefix l ((c # u) @ m @ v)" | "sublist l (u @ m @ v)"
    by (auto simp: sublist_Cons_right)
  then show ?case
  proof cases
    case 1
    then consider "prefix l (c # u)" | us where "l = (c # u) @ us" "prefix us (m @ v)"
      unfolding prefix_append by blast
    then show ?thesis
    proof cases
      case 1
      then show ?thesis by blast
    next
      case 2
      have "us = []"
      proof (rule ccontr)
        assume "us \<noteq> []"
        then obtain x xs where us: "us = x # xs" by (cases us) auto
        from m obtain y ys where ms: "m = y # ys" by (cases m) auto
        from 2(2) have "x = y" by (simp add: us ms)
        then have "x \<in> set l \<inter> set m" by (simp add: 2(1) us ms)
        with d show False by blast
      qed
      with 2(1) show ?thesis by simp
    qed
  next
    case 2
    from Cons(1) [OF this] show ?thesis by (auto simp: sublist_Cons_right)
  qed
qed

lemma sublist_count: "sublist l s \<Longrightarrow> count_list l c \<le> count_list s c"
  by (auto simp: sublist_def)

lemma no_doublestar: "count_list s CHR ''*'' \<le> 1 \<Longrightarrow> \<not> sublist ''**'' s"
  using sublist_count [of "''**''" s "CHR ''*''"] by auto

lemma replaceAll_skip_prefix:
  "hd pat \<notin> set u \<Longrightarrow> replaceAll pat rep (u @ v) = u @ replaceAll pat rep v"
  by (induction u) (auto simp: replaceAll_skip simp del: replaceAll.simps(2))

lemma escapeSpecial_star: "CHR ''*'' \<notin> set d \<Longrightarrow> CHR ''*'' \<notin> set (escapeSpecial d)"
  by (induction d) (auto simp: escapeSpecial_def)

lemma escapeSpecial_marker:
  "\<not> sublist ''___'' d \<Longrightarrow> \<not> sublist ''___'' (escapeSpecial d)"
  using sublist_escapeSpecial [of "''___''" d] by (auto simp: special_def)

lemma marker_sublists:
  "sublist ''**'' ''**/''" "sublist ''**'' ''/**''" "sublist ''**'' ''**''"
  "sublist ''___'' ''___DOUBLESTAR_SLASH___''" "sublist ''___'' ''___SLASH_DOUBLESTAR___''"
  "sublist ''___'' ''___DOUBLESTAR___''"
  by code_simp+

lemma substitute_nothing:
  assumes "\<not> sublist ''___'' s"
  shows "replaceAll ''___DOUBLESTAR___'' ''.*''
      (replaceAll ''___SLASH_DOUBLESTAR___'' ''/.*''
       (replaceAll ''___DOUBLESTAR_SLASH___'' ''(?:.*/)?'' s)) = s"
proof -
  note r = replaceAll_no_sublist [OF sublist_marker [OF _ assms]]
  show ?thesis
    by (simp only: r [OF marker_sublists(4)] r [OF marker_sublists(5)] r [OF marker_sublists(6)])
qed

lemma mark_nothing:
  assumes "\<not> sublist ''**'' s"
  shows "replaceAll ''**'' r3 (replaceAll ''/**'' r2 (replaceAll ''**/'' r1 s)) = s"
proof -
  note r = replaceAll_no_sublist [OF sublist_marker [OF _ assms]]
  show ?thesis
    by (simp only: r [OF marker_sublists(1)] r [OF marker_sublists(2)] r [OF marker_sublists(3)])
qed

lemma regexSource_single_star:
  assumes a: "CHR ''*'' \<notin> set a" "\<not> sublist ''___'' a"
      and b: "CHR ''*'' \<notin> set b" "\<not> sublist ''___'' b"
  shows "regexSource (a @ ''*'' @ b) = escapeSpecial a @ ''[^/]*'' @ escapeSpecial b"
proof -
  let ?a = "escapeSpecial a" and ?b = "escapeSpecial b"
  note sa = escapeSpecial_star [OF a(1)] and sb = escapeSpecial_star [OF b(1)]
  note ma = escapeSpecial_marker [OF a(2)] and mb = escapeSpecial_marker [OF b(2)]
  have e0: "escapeSpecial (a @ ''*'' @ b) = ?a @ ''*'' @ ?b"
    by (simp add: escapeSpecial_append) (simp add: escapeSpecial_def special_def)
  have "count_list (?a @ ''*'' @ ?b) CHR ''*'' \<le> 1" using sa sb by simp
  then have ns: "\<not> sublist ''**'' (?a @ ''*'' @ ?b)" by (rule no_doublestar)
  have "replaceAll ''*'' ''[^/]*'' (?a @ ''*'' @ ?b) = ?a @ replaceAll ''*'' ''[^/]*'' (''*'' @ ?b)"
    using sa by (intro replaceAll_skip_prefix) simp
  also have "replaceAll ''*'' ''[^/]*'' (''*'' @ ?b) = ''[^/]*'' @ replaceAll ''*'' ''[^/]*'' ?b"
    by (rule replaceAll_prefix) simp
  also have "replaceAll ''*'' ''[^/]*'' ?b = ?b" using sb by (intro replaceAll_absent) simp
  finally have s5: "replaceAll ''*'' ''[^/]*'' (?a @ ''*'' @ ?b) = ?a @ ''[^/]*'' @ ?b" .
  have nm: "\<not> sublist ''___'' (?a @ ''[^/]*'' @ ?b)"
    using sublist_sep [of "''___''" "''[^/]*''" ?a ?b] ma mb by auto
  show ?thesis
    unfolding regexSource_def e0 mark_nothing [OF ns] s5 substitute_nothing [OF nm] ..
qed

lemma items_escapeSpecial_append: "items (escapeSpecial d @ t) = lit d @ items t"
  by (induction d) (auto simp: escapeSpecial_def special_def lit_def simp del: items.simps(2)
      simp add: items_tokens)

lemma single_star_family:
  assumes a: "CHR ''*'' \<notin> set a" "\<not> sublist ''___'' a"
      and b: "CHR ''*'' \<notin> set b" "\<not> sublist ''___'' b"
      and c: "compiles (a @ ''*'' @ b)"
  shows "matchPattern p (a @ ''*'' @ b) = Inr (\<exists>n. p = a @ n @ b \<and> CHR ''/'' \<notin> set n)"
proof -
  have "items (escapeSpecial b) = lit b"
    using items_escapeSpecial_append [of b "[]"] by simp
  then have "items (regexSource (a @ ''*'' @ b)) = lit a @ Star (Cls True ''/'') # lit b"
    unfolding regexSource_single_star [OF a b] items_escapeSpecial_append
    by (simp only: items_tokens(2))
  then show ?thesis
    unfolding matchPattern_compiles [OF c] accepts_def
    by (simp only: matches_lit_append segment_then_suffix) blast
qed

lemma marker_not_prefix:
  assumes "\<not> sublist ''___'' (c # u)"
  shows "\<not> prefix ''___DOUBLESTAR_SLASH___'' (c # u @ ''___DOUBLESTAR_SLASH___'' @ t)"
proof
  assume p: "prefix ''___DOUBLESTAR_SLASH___'' (c # u @ ''___DOUBLESTAR_SLASH___'' @ t)"
  show False
  proof (cases u)
    case Nil
    with p show False by simp
  next
    case u: (Cons d v)
    show False
    proof (cases v)
      case Nil
      with p u show False by simp
    next
      case (Cons e w)
      with p u have "prefix ''___'' (c # u)" by auto
      then have "sublist ''___'' (c # u)" by (rule prefix_imp_sublist)
      with assms show False ..
    qed
  qed
qed

lemma replaceAll_marker_after:
  "\<not> sublist ''___'' u \<Longrightarrow>
   replaceAll ''___DOUBLESTAR_SLASH___'' rep (u @ ''___DOUBLESTAR_SLASH___'' @ t)
     = u @ rep @ replaceAll ''___DOUBLESTAR_SLASH___'' rep t"
proof (induction u)
  case Nil
  show ?case using replaceAll_prefix [of "''___DOUBLESTAR_SLASH___''" rep t] by simp
next
  case (Cons c u)
  from Cons(2) have "\<not> sublist ''___'' u" by (auto simp: sublist_Cons_right)
  from Cons(1) [OF this] replaceAll_no_match [OF marker_not_prefix [OF Cons(2)], of rep t]
  show ?case by simp
qed

lemma regexSource_doublestar:
  assumes a: "CHR ''*'' \<notin> set a" "\<not> sublist ''___'' a"
      and b: "CHR ''*'' \<notin> set b" "\<not> sublist ''___'' b"
  shows "regexSource (a @ ''**/*'' @ b) = escapeSpecial a @ ''(?:.*/)?[^/]*'' @ escapeSpecial b"
proof -
  let ?a = "escapeSpecial a" and ?b = "escapeSpecial b"
  let ?M = "''___DOUBLESTAR_SLASH___''"
  note sa = escapeSpecial_star [OF a(1)] and sb = escapeSpecial_star [OF b(1)]
  note ma = escapeSpecial_marker [OF a(2)] and mb = escapeSpecial_marker [OF b(2)]
  have e0: "escapeSpecial (a @ ''**/*'' @ b) = ?a @ ''**/'' @ ''*'' @ ?b"
    by (simp add: escapeSpecial_append) (simp add: escapeSpecial_def special_def)
  have one: "\<not> sublist ''**'' (''*'' @ ?b)"
    using sb by (intro no_doublestar) simp
  have "replaceAll ''**/'' ?M (?a @ ''**/'' @ ''*'' @ ?b)
      = ?a @ replaceAll ''**/'' ?M (''**/'' @ ''*'' @ ?b)"
    using sa by (intro replaceAll_skip_prefix) simp
  also have "replaceAll ''**/'' ?M (''**/'' @ ''*'' @ ?b) = ?M @ replaceAll ''**/'' ?M (''*'' @ ?b)"
    by (rule replaceAll_prefix) simp
  also have "replaceAll ''**/'' ?M (''*'' @ ?b) = ''*'' @ ?b"
    by (rule replaceAll_no_sublist [OF sublist_marker [OF marker_sublists(1) one]])
  finally have s2: "replaceAll ''**/'' ?M (?a @ ''**/'' @ ''*'' @ ?b) = ?a @ ?M @ ''*'' @ ?b" .
  have "count_list (?a @ ?M @ ''*'' @ ?b) CHR ''*'' \<le> 1" using sa sb by simp
  then have ns: "\<not> sublist ''**'' (?a @ ?M @ ''*'' @ ?b)" by (rule no_doublestar)
  note r = replaceAll_no_sublist [OF sublist_marker [OF _ ns]]
  have s34: "replaceAll ''**'' ''___DOUBLESTAR___''
      (replaceAll ''/**'' ''___SLASH_DOUBLESTAR___'' (?a @ ?M @ ''*'' @ ?b)) = ?a @ ?M @ ''*'' @ ?b"
    by (simp only: r [OF marker_sublists(2)] r [OF marker_sublists(3)])
  have "replaceAll ''*'' ''[^/]*'' ((?a @ ?M) @ ''*'' @ ?b)
      = (?a @ ?M) @ replaceAll ''*'' ''[^/]*'' (''*'' @ ?b)"
    using sa by (intro replaceAll_skip_prefix) simp
  also have "replaceAll ''*'' ''[^/]*'' (''*'' @ ?b) = ''[^/]*'' @ replaceAll ''*'' ''[^/]*'' ?b"
    by (rule replaceAll_prefix) simp
  also have "replaceAll ''*'' ''[^/]*'' ?b = ?b" using sb by (intro replaceAll_absent) simp
  finally have s5: "replaceAll ''*'' ''[^/]*'' (?a @ ?M @ ''*'' @ ?b) = ?a @ ?M @ ''[^/]*'' @ ?b"
    by simp
  have nr: "\<not> sublist ''___'' (''[^/]*'' @ ?b)"
    using sublist_after [of "''___''" "''[^/]*''" ?b] mb by auto
  have "replaceAll ?M ''(?:.*/)?'' (?a @ ?M @ ''[^/]*'' @ ?b)
      = ?a @ ''(?:.*/)?'' @ replaceAll ?M ''(?:.*/)?'' (''[^/]*'' @ ?b)"
    using ma by (rule replaceAll_marker_after)
  also have "replaceAll ?M ''(?:.*/)?'' (''[^/]*'' @ ?b) = ''[^/]*'' @ ?b"
    by (rule replaceAll_no_sublist [OF sublist_marker [OF marker_sublists(4) nr]])
  finally have s6: "replaceAll ?M ''(?:.*/)?'' (?a @ ?M @ ''[^/]*'' @ ?b)
      = ?a @ ''(?:.*/)?[^/]*'' @ ?b" by simp
  have nm: "\<not> sublist ''___'' (?a @ ''(?:.*/)?[^/]*'' @ ?b)"
    using sublist_sep [of "''___''" "''(?:.*/)?[^/]*''" ?a ?b] ma mb by auto
  note q = replaceAll_no_sublist [OF sublist_marker [OF _ nm]]
  have s78: "replaceAll ''___DOUBLESTAR___'' ''.*''
      (replaceAll ''___SLASH_DOUBLESTAR___'' ''/.*'' (?a @ ''(?:.*/)?[^/]*'' @ ?b))
      = ?a @ ''(?:.*/)?[^/]*'' @ ?b"
    by (simp only: q [OF marker_sublists(5)] q [OF marker_sublists(6)])
  show ?thesis
    unfolding regexSource_def e0 s2 s34 s5 s6 s78 ..
qed

lemma doublestar_family:
  assumes a: "CHR ''*'' \<notin> set a" "\<not> sublist ''___'' a"
      and b: "CHR ''*'' \<notin> set b" "\<not> sublist ''___'' b"
      and c: "compiles (a @ ''**/*'' @ b)"
  shows "matchPattern p (a @ ''**/*'' @ b) = Inr ((\<exists>n. p = a @ n @ b \<and> CHR ''/'' \<notin> set n)
      \<or> (\<exists>d n. p = a @ d @ ''/'' @ n @ b \<and> (\<forall>c \<in> set d. \<not> line_terminator c)
            \<and> CHR ''/'' \<notin> set n))"
proof -
  have "items (escapeSpecial b) = lit b"
    using items_escapeSpecial_append [of b "[]"] by simp
  then have "items (''(?:.*/)?[^/]*'' @ escapeSpecial b)
      = Alt (Seq (Star Dot) (Seq (Chr CHR ''/'') One)) One # Star (Cls True ''/'') # lit b"
    using items_tokens(3) [of "''[^/]*'' @ escapeSpecial b"] items_tokens(2) [of "escapeSpecial b"]
    by simp
  then have "items (regexSource (a @ ''**/*'' @ b))
      = lit a @ Alt (Seq (Star Dot) (Seq (Chr CHR ''/'') One)) One # Star (Cls True ''/'') # lit b"
    unfolding regexSource_doublestar [OF a b] items_escapeSpecial_append by simp
  then show ?thesis
    unfolding matchPattern_compiles [OF c] accepts_def
    by (simp only: matches_lit_append matches_dirs_Cons segment_then_suffix) blast
qed

text \<open>
  Claim C4. In matchPattern a single \<open>*\<close> stays inside one path segment: for literal parts
  \<open>a\<close> and \<open>b\<close> (no \<open>*\<close>, and no \<open>___\<close>, which the translation uses for its markers) the
  pattern \<open>a*b\<close> matches exactly the paths \<open>a n b\<close> whose \<open>n\<close> holds no \<open>/\<close>. The pattern
  \<open>a**/*b\<close> matches such a path, with zero directories in between, and the paths \<open>a d/n b\<close>
  with any directories \<open>d\<close> in between, except that \<open>d\<close> may hold no line terminator: \<open>**/\<close>
  becomes \<open>(?:.*/)?\<close>, and \<open>.\<close> stops at a line terminator. So \<open>src/*.ts\<close> matches
  \<open>src/index.ts\<close> and not \<open>src/utils/helper.ts\<close>, \<open>src/**/*.ts\<close> and \<open>**/*.ts\<close> match
  \<open>src/utils/helper.ts\<close>, and \<open>**/*.ts\<close> matches \<open>index.ts\<close>; but the path \<open>a\<newline>b/c.ts\<close>, with a
  line feed in the name of its directory, is not matched by \<open>**/*.ts\<close>.
\<close>

theorem matchPattern_segments:
  "(CHR ''*'' \<notin> set a \<and> \<not> sublist ''___'' a \<and> CHR ''*'' \<notin> set b \<and> \<not> sublist ''___'' b \<longrightarrow>
      (compiles (a @ ''*'' @ b) \<longrightarrow>
         matchPattern p (a @ ''*'' @ b) = Inr (\<exists>n. p = a @ n @ b \<and> CHR ''/'' \<notin> set n))
      \<and> (compiles (a @ ''**/*'' @ b) \<longrightarrow>
         matchPattern p (a @ ''**/*'' @ b) = Inr ((\<exists>n. p = a @ n @ b \<and> CHR ''/'' \<notin> set n)
           \<or> (\<exists>d n. p = a @ d @ ''/'' @ n @ b \<and> (\<forall>c \<in> set d. \<not> line_terminator c)
                 \<and> CHR ''/'' \<notin> set n))))
   \<and> matchPattern ''src/index.ts'' ''src/*.ts'' = Inr True
   \<and> matchPattern ''src/utils/helper.ts'' ''src/*.ts'' = Inr False
   \<and> matchPattern ''src/utils/helper.ts'' ''src/**/*.ts'' = Inr True
   \<and> matchPattern ''src/index.ts'' ''src/**/*.ts'' = Inr True
   \<and> matchPattern ''src/utils/helper.ts'' ''**/*.ts'' = Inr True
   \<and> matchPattern ''index.ts'' ''**/*.ts'' = Inr True
   \<and> matchPattern (''a'' @ [CHR 0x0A] @ ''b/c.ts'') ''**/*.ts'' = Inr False"
proof -
  have e: "matchPattern ''src/index.ts'' ''src/*.ts'' = Inr True"
    "matchPattern ''src/utils/helper.ts'' ''src/*.ts'' = Inr False"
    "matchPattern ''src/utils/helper.ts'' ''src/**/*.ts'' = Inr True"
    "matchPattern ''src/index.ts'' ''src/**/*.ts'' = Inr True"
    "matchPattern ''src/utils/helper.ts'' ''**/*.ts'' = Inr True"
    "matchPattern ''index.ts'' ''**/*.ts'' = Inr True"
    "matchPattern (''a'' @ [CHR 0x0A] @ ''b/c.ts'') ''**/*.ts'' = Inr False"
    by code_simp+
  have f: "CHR ''*'' \<notin> set a \<and> \<not> sublist ''___'' a \<and> CHR ''*'' \<notin> set b \<and> \<not> sublist ''___'' b \<longrightarrow>
      (compiles (a @ ''*'' @ b) \<longrightarrow>
         matchPattern p (a @ ''*'' @ b) = Inr (\<exists>n. p = a @ n @ b \<and> CHR ''/'' \<notin> set n))
      \<and> (compiles (a @ ''**/*'' @ b) \<longrightarrow>
         matchPattern p (a @ ''**/*'' @ b) = Inr ((\<exists>n. p = a @ n @ b \<and> CHR ''/'' \<notin> set n)
           \<or> (\<exists>d n. p = a @ d @ ''/'' @ n @ b \<and> (\<forall>c \<in> set d. \<not> line_terminator c)
                 \<and> CHR ''/'' \<notin> set n)))"
    using single_star_family [of a b p] doublestar_family [of a b p] by blast
  show ?thesis by (intro conjI) (rule f e)+
qed

text \<open>
  At the literal parts \<open>src/\<close> and \<open>.ts\<close> and the path \<open>src/utils/helper.ts\<close>: the path is not
  \<open>src/\<close>, a single segment and \<open>.ts\<close>; it is \<open>src/\<close>, the directory \<open>utils\<close> and a file name.
\<close>

theorem matchPattern_segments_witness:
  "CHR ''*'' \<notin> set ''src/'' \<and> \<not> sublist ''___'' ''src/''
   \<and> CHR ''*'' \<notin> set ''.ts'' \<and> \<not> sublist ''___'' ''.ts''
   \<and> compiles (''src/'' @ ''*'' @ ''.ts'') \<and> compiles (''src/'' @ ''**/*'' @ ''.ts'')
   \<and> \<not> (\<exists>n. ''src/utils/helper.ts'' = ''src/'' @ n @ ''.ts'' \<and> CHR ''/'' \<notin> set n)
   \<and> ((\<exists>n. ''src/utils/helper.ts'' = ''src/'' @ n @ ''.ts'' \<and> CHR ''/'' \<notin> set n)
      \<or> (\<exists>d n. ''src/utils/helper.ts'' = ''src/'' @ d @ ''/'' @ n @ ''.ts''
            \<and> (\<forall>c \<in> set d. \<not> line_terminator c) \<and> CHR ''/'' \<notin> set n))"
proof -
  have h: "CHR ''*'' \<notin> set ''src/'' \<and> \<not> sublist ''___'' ''src/''
      \<and> CHR ''*'' \<notin> set ''.ts'' \<and> \<not> sublist ''___'' ''.ts''"
    by code_simp
  have c: "compiles (''src/'' @ ''*'' @ ''.ts'')" "compiles (''src/'' @ ''**/*'' @ ''.ts'')"
    by code_simp+
  have v: "matchPattern ''src/utils/helper.ts'' (''src/'' @ ''*'' @ ''.ts'') = Inr False"
    "matchPattern ''src/utils/helper.ts'' (''src/'' @ ''**/*'' @ ''.ts'') = Inr True"
    by code_simp+
  note T = matchPattern_segments [of "''src/''" "''.ts''" "''src/utils/helper.ts''",
    THEN conjunct1, rule_format, OF h]
  note single = T [THEN conjunct1, rule_format, OF c(1)]
  note dirs = T [THEN conjunct2, rule_format, OF c(2)]
  note a = single [symmetric, THEN trans, OF v(1), unfolded sum.inject eq_False]
  note b = dirs [symmetric, THEN trans, OF v(2), unfolded sum.inject, THEN eqTrueE]
  from h c a b show ?thesis by (intro conjI) (erule conjunct1 conjunct2 | assumption | elim conjE)+
qed




section \<open>Properties of findFiles\<close>



lemma set_add [simp]: "set (add x xs) = insert x (set xs)"
  by (auto simp: add_def)

lemma chain_nonempty:
  "c \<in> set (filesOf dir node) \<Longrightarrow> c \<noteq> []"
  "c \<in> set (filesIn dir entries) \<Longrightarrow> c \<noteq> []"
  by (induction dir node and dir entries arbitrary: c and c rule: filesOf_filesIn.induct)
    (auto split: if_splits)

lemma hits_simps [simp]:
  "hits ign pats md depth [] = []"
  "hits ign pats md depth (c # cs) =
     (if admitted ign pats md depth c then [last c] else []) @ hits ign pats md depth cs"
  "hits ign pats md depth (cs @ ds) = hits ign pats md depth cs @ hits ign pats md depth ds"
  by (simp_all add: hits_def)

lemma hits_below:
  assumes "shouldIgnore p ign = Inr b"
      and "\<forall>c \<in> set sub. c \<noteq> []"
  shows "hits ign pats md depth (map ((#) p) sub)
     = (if b then [] else hits ign pats md (depth + 1) sub)"
  using assms(2)
proof (induction sub)
  case Nil
  then show ?case by simp
next
  case (Cons c sub)
  then have "c \<noteq> []" by simp
  then have "admitted ign pats md depth (p # c) \<longleftrightarrow> \<not> b \<and> admitted ign pats md (depth + 1) c"
    using assms(1) by (auto simp: admitted_def)
  then show ?case using Cons \<open>c \<noteq> []\<close> by simp
qed


lemma walk_subset:
  "set (walk ign pats md dir depth node res)
     \<subseteq> set res \<union> set (hits ign pats md depth (filesOf dir node))"
  and walkEntries_subset:
  "int depth \<le> md \<Longrightarrow> set (walkEntries ign pats md dir depth entries res)
     \<subseteq> set res \<union> set (hits ign pats md depth (filesIn dir entries))"
proof (induction ign pats md dir depth node res
    and ign pats md dir depth entries res rule: walk_walkEntries.induct)
  case (1 ign pats md dir depth node res)
  show ?case
  proof (cases "int depth > md")
    case True
    then show ?thesis by simp
  next
    case False
    then show ?thesis using 1 by (cases node) auto
  qed
next
  case (2 ign pats md dir depth res)
  then show ?case by simp
next
  case (3 ign pats md dir depth name node entries res)
  let ?p = "relativePath dir name"
  show ?case
  proof (cases "shouldIgnore ?p ign")
    case (Inl e)
    then show ?thesis by simp
  next
    case b: (Inr b)
    have below: "hits ign pats md depth (map ((#) ?p) (filesOf ?p node))
        = (if b then [] else hits ign pats md (depth + 1) (filesOf ?p node))"
      using chain_nonempty(1) by (intro hits_below [OF b]) blast
    show ?thesis
    proof (cases b)
      case True
      then have bT: "b = True" by simp
      from 3(1) [OF b bT 3(7)] show ?thesis using b bT by auto
    next
      case False
      then have nb: "b = False" by simp
      show ?thesis
      proof (cases "isDirectory node")
        case True
        then have nf: "node \<noteq> File" by (auto simp: isDirectory_def)
        from 3(3) [OF b nb True 3(7)] 3(2) [OF b nb True]
        show ?thesis using b nb True below nf by (auto simp del: walk.simps)
      next
        case nd: False
        show ?thesis
        proof (cases "isFile node")
          case True
          show ?thesis
          proof (cases "matchesAnyPattern ?p pats")
            case (Inl e)
            then show ?thesis using b nb nd True by simp
          next
            case m: (Inr m)
            have self: "admitted ign pats md depth [?p] \<longleftrightarrow> m"
              using b nb m 3(7) by (auto simp: admitted_def)
            show ?thesis
            proof (cases m)
              case mT: True
              then have "m = True" by simp
              from 3(4) [OF b nb nd True m this 3(7)] show ?thesis
                using b nb nd True m mT self by (auto simp: isFile_def)
            next
              case mF: False
              then have "m = False" by simp
              from 3(5) [OF b nb nd True m this 3(7)] show ?thesis
                using b nb nd True m mF by auto
            qed
          qed
        next
          case False
          from 3(6) [OF b nb nd False 3(7)] show ?thesis
            using b nb nd False by auto
        qed
      qed
    qed
  qed
qed




lemma findFiles_eq:
  "findFiles root pats opts
     = sort (walk (ignoreOf opts) (map normalizePattern pats) (maxDepthOf opts) [] 0 root [])"
  by (simp add: findFiles_def ignoreOf_def maxDepthOf_def)

lemma findFiles_subset:
  "set (findFiles root pats opts)
     \<subseteq> set (hits (ignoreOf opts) (map normalizePattern pats) (maxDepthOf opts) 0 (filesOf [] root))"
  using walk_subset [of "ignoreOf opts" "map normalizePattern pats" "maxDepthOf opts" "[]" 0 root "[]"]
  by (simp add: findFiles_eq del: walk.simps)




lemma set_hits:
  "set (hits ign pats md depth cs) = last ` {c \<in> set cs. admitted ign pats md depth c}"
  by (simp add: hits_def)






lemma findFiles_member_only:
  "p \<in> set (findFiles root pats opts) \<Longrightarrow>
     \<exists>c \<in> set (filesOf [] root). last c = p
        \<and> admitted (ignoreOf opts) (map normalizePattern pats) (maxDepthOf opts) 0 c"
  using findFiles_subset [of root pats opts] by (auto simp: set_hits)

lemma walk_pruned: "md < int depth \<Longrightarrow> walk ign pats md dir depth node res = res"
  by simp













text \<open>
  Claim C7. With maxDepth = 0 a tree whose only matching file is \<open>src/index.ts\<close> yields the
  empty list: a call of walk with depth above maxDepth returns without reading the directory,
  so with maxDepth = 0 only files listed in the root itself can be returned.
\<close>

theorem findFiles_maxDepth_prunes:
  "findFiles (Dir [(''src'', Dir [(''index.ts'', File)])]) [''**/*.ts'']
      \<lparr>ignore = None, maxDepth = Some 0\<rparr> = []
   \<and> (\<forall>ign pats md dir depth node res.
        md < int depth \<longrightarrow> walk ign pats md dir depth node res = res)
   \<and> (\<forall>root pats opts p. maxDepth opts = Some 0 \<longrightarrow> p \<in> set (findFiles root pats opts)
        \<longrightarrow> [p] \<in> set (filesOf [] root))"
proof -
  have a: "findFiles (Dir [(''src'', Dir [(''index.ts'', File)])]) [''**/*.ts'']
      \<lparr>ignore = None, maxDepth = Some 0\<rparr> = []"
    by code_simp
  have c: "[p] \<in> set (filesOf [] root)"
    if "maxDepth opts = Some 0" "p \<in> set (findFiles root pats opts)" for root pats opts p
  proof -
    from that(2) obtain c where c: "c \<in> set (filesOf [] root)" "last c = p"
      "admitted (ignoreOf opts) (map normalizePattern pats) (maxDepthOf opts) 0 c"
      using findFiles_member_only by blast
    from c(3) that(1) have "length c \<le> 1" by (simp add: admitted_def maxDepthOf_def)
    with chain_nonempty(1) [OF c(1)] c(2) have "c = [p]" by (cases c) auto
    with c(1) show ?thesis by simp
  qed
  show ?thesis using a c by (simp del: walk.simps add: walk_pruned)
qed

theorem findFiles_maxDepth_prunes_witness:
  "(0::int) < int 1
   \<and> walk [] [''**/*.ts''] 0 ''src'' 1 (Dir [(''index.ts'', File)]) [] = []
   \<and> maxDepth \<lparr>ignore = None, maxDepth = Some 0\<rparr> = Some 0
   \<and> ''a.ts'' \<in> set (findFiles (Dir [(''a.ts'', File), (''src'', Dir [(''index.ts'', File)])]) [''**/*.ts'']
      \<lparr>ignore = None, maxDepth = Some 0\<rparr>)
   \<and> [''a.ts''] \<in> set (filesOf [] (Dir [(''a.ts'', File), (''src'', Dir [(''index.ts'', File)])]))"
proof -
  let ?o = "\<lparr>ignore = None, maxDepth = Some 0\<rparr>"
  let ?t = "Dir [(''a.ts'', File), (''src'', Dir [(''index.ts'', File)])]"
  note T = findFiles_maxDepth_prunes
  have h: "(0::int) < int 1" by simp
  from T h have w: "walk [] [''**/*.ts''] 0 ''src'' 1 (Dir [(''index.ts'', File)]) [] = []"
    by blast
  have m: "''a.ts'' \<in> set (findFiles ?t [''**/*.ts''] ?o)" by code_simp
  have o: "maxDepth ?o = Some 0" by simp
  from T o m have "[''a.ts''] \<in> set (filesOf [] ?t)" by blast
  with h w m o show ?thesis by blast
qed

text \<open>
  Claim C10. The exclusion pattern \<open>node_modules/**\<close> does not match the directory path
  \<open>node_modules\<close> itself, so the walk enters the directory and tests its entries one by one.
  An entry such as \<open>node_modules/lib.js\<close> is then excluded, but an entry whose name holds a line
  feed is not: the \<open>.*\<close> that stands for \<open>/**\<close> stops at a line terminator, and with the
  inclusion pattern \<open>**/*\<close> that file of the excluded directory is returned.
\<close>

theorem doublestar_suffix_misses_line_feed:
  "matchPattern ''node_modules'' ''node_modules/**'' = Inr False
   \<and> matchPattern ''node_modules/lib.js'' ''node_modules/**'' = Inr True
   \<and> matchPattern (''node_modules/a'' @ [CHR 0x0A] @ ''b'') ''node_modules/**'' = Inr False
   \<and> findFiles lineTree [''**/*''] \<lparr>ignore = Some [''node_modules/**''], maxDepth = None\<rparr>
       = [''node_modules/a'' @ [CHR 0x0A] @ ''b'']"
  by code_simp

section \<open>Properties of the collector\<close>

lemma decimal_50000: "decimal 50000 = ''50000''"
  by (simp add: decimal.simps)

lemma truncateContent_long:
  "length text > MAX_FILE_SIZE \<Longrightarrow> truncateContent text MAX_FILE_SIZE = take 50000 text @ notice"
  by (simp add: truncateContent_def MAX_FILE_SIZE_def decimal_50000 notice_def)

lemma length_notice: "length notice = 74"
  by (simp add: notice_def)

lemma capped_eq:
  "capped text = (if length text \<le> 50000 then text else take 50000 text @ notice)"
  by (auto simp: capped_def truncateContent_long) (simp_all add: MAX_FILE_SIZE_def)

lemma length_capped: "length (capped text) \<le> 50074"
  by (simp add: capped_eq length_notice)

lemma processFile_cases:
  "processFile rd n m st =
     (case rd m of
        Inl e \<Rightarrow> Continue (report (CouldNotRead m e) st)
      | Inr text \<Rightarrow>
          if CHR 0x00 \<in> set text then Continue (report (SkippingBinary m) st)
          else if totalTokens st + estimateTokens (capped text) > MAX_TOTAL_TOKENS
          then Break (report (BudgetReached (totalTokens st) MAX_TOTAL_TOKENS (length (results st))
                  (n - length (results st)))
                 (if length text > MAX_FILE_SIZE
                  then report (Truncating m (length text) MAX_FILE_SIZE) st else st))
          else Continue ((if length text > MAX_FILE_SIZE
                  then report (Truncating m (length text) MAX_FILE_SIZE) st else st)
                 \<lparr>results := results st @ [\<lparr>path = m, content = capped text\<rparr>],
                   totalTokens := totalTokens st + estimateTokens (capped text)\<rparr>))"
  by (auto simp: processFile_def capped_def report_def Let_def split: sum.splits)

lemma readFiles_append:
  "readFiles rd n (xs @ ys) st =
     (if stops rd n xs st then readFiles rd n xs st else readFiles rd n ys (readFiles rd n xs st))"
  by (induction xs arbitrary: st) (auto split: outcome.splits)

lemma processFile_results:
  assumes "processFile rd n m st = Continue st' \<or> processFile rd n m st = Break st'"
  shows "results st' = results st \<or>
     (\<exists>text. rd m = Inr text \<and> CHR 0x00 \<notin> set text
        \<and> results st' = results st @ [\<lparr>path = m, content = capped text\<rparr>])"
  using assms by (auto simp: processFile_cases report_def split: sum.splits if_splits)

lemma processFile_budget:
  assumes "processFile rd n m st = Continue st' \<or> processFile rd n m st = Break st'"
      and "totalTokens st = cost st" "cost st \<le> MAX_TOTAL_TOKENS"
  shows "totalTokens st' = cost st' \<and> cost st' \<le> MAX_TOTAL_TOKENS"
  using assms by (auto simp: processFile_cases report_def cost_def split: sum.splits if_splits)

lemma readFiles_results:
  "f \<in> set (results (readFiles rd n xs st)) \<Longrightarrow>
     f \<in> set (results st) \<or> (path f \<in> set xs \<and> accepted rd f)"
proof (induction xs arbitrary: st)
  case Nil
  then show ?case by simp
next
  case (Cons m xs)
  show ?case
  proof (cases "processFile rd n m st")
    case (Continue st')
    with Cons.prems have "f \<in> set (results (readFiles rd n xs st'))" by simp
    from Cons.IH [OF this] processFile_results [of rd n m st st'] Continue
    show ?thesis by (auto simp: accepted_def)
  next
    case (Break st')
    with Cons.prems have "f \<in> set (results st')" by simp
    with processFile_results [of rd n m st st'] Break
    show ?thesis by (auto simp: accepted_def)
  qed
qed

lemma readFiles_budget:
  "totalTokens st = cost st \<Longrightarrow> cost st \<le> MAX_TOTAL_TOKENS \<Longrightarrow>
     totalTokens (readFiles rd n xs st) = cost (readFiles rd n xs st)
     \<and> cost (readFiles rd n xs st) \<le> MAX_TOTAL_TOKENS"
proof (induction xs arbitrary: st)
  case Nil
  then show ?case by simp
next
  case (Cons m xs)
  show ?case
  proof (cases "processFile rd n m st")
    case (Continue st')
    with processFile_budget [of rd n m st st'] Cons.prems
    have "totalTokens st' = cost st' \<and> cost st' \<le> MAX_TOTAL_TOKENS" by simp
    with Cons.IH [of st'] Continue show ?thesis by simp
  next
    case (Break st')
    with processFile_budget [of rd n m st st'] Cons.prems show ?thesis by simp
  qed
qed

lemma findAndReadFiles_results:
  "results (findAndReadFiles repo rd pats)
     = results (readFiles rd (length (allFiles repo pats)) (allFiles repo pats) initial)"
  by (simp add: findAndReadFiles_def Let_def report_def initial_def)

lemma findAndReadFiles_accepted:
  "f \<in> set (results (findAndReadFiles repo rd pats)) \<Longrightarrow>
     path f \<in> set (allFiles repo pats) \<and> accepted rd f"
  using readFiles_results [of f rd _ _ initial]
  by (auto simp: findAndReadFiles_results initial_def)

lemma findAndReadFiles_budget:
  "cost (findAndReadFiles repo rd pats) \<le> MAX_TOTAL_TOKENS"
proof -
  have "cost (findAndReadFiles repo rd pats)
      = cost (readFiles rd (length (allFiles repo pats)) (allFiles repo pats) initial)"
    by (simp add: cost_def findAndReadFiles_results)
  then show ?thesis using readFiles_budget [of initial rd]
    by (simp add: initial_def cost_def)
qed

lemma allFiles_bigRepo: "allFiles bigRepo minimal = [''package-lock.json'']"
  by code_simp

lemma allFiles_budgetRepo:
  "allFiles budgetRepo [''*.txt''] = [''a.txt'', ''b.txt'', ''c.txt'', ''d.txt'']"
  by code_simp

lemma allFiles_binRepo:
  "allFiles binRepo [''Dockerfile.*'', ''README.md''] = [''README.md'', ''Dockerfile.bin'']"
  by code_simp

lemma results_big:
  "results (findAndReadFiles bigRepo bigRead minimal)
     = [\<lparr>path = ''package-lock.json'', content = replicate 50000 CHR ''x'' @ notice\<rparr>]"
  by (simp add: findAndReadFiles_results allFiles_bigRepo processFile_cases bigRead_def capped_eq
      initial_def estimateTokens_def length_notice MAX_TOTAL_TOKENS_def MAX_FILE_SIZE_def report_def)

lemma seenFilter_distinct:
  "distinct (seenFilter seen xs) \<and> set (seenFilter seen xs) \<inter> set seen = {}"
  by (induction seen xs rule: seenFilter.induct) auto

lemma allFiles_distinct: "distinct (allFiles repo pats)"
  by (simp add: allFiles_def seenFilter_distinct)

lemma processFile_other:
  assumes "processFile rd n x st = Continue st' \<or> processFile rd n x st = Break st'" "x \<noteq> m"
  shows "count_list (diagnostics st') (SkippingBinary m) = count_list (diagnostics st) (SkippingBinary m)"
  using assms by (auto simp: processFile_cases report_def split: sum.splits if_splits)

lemma readFiles_other:
  "m \<notin> set xs \<Longrightarrow>
     count_list (diagnostics (readFiles rd n xs st)) (SkippingBinary m)
       = count_list (diagnostics st) (SkippingBinary m)"
proof (induction xs arbitrary: st)
  case Nil
  then show ?case by simp
next
  case (Cons x xs)
  then have x: "x \<noteq> m" "m \<notin> set xs" by auto
  show ?case
  proof (cases "processFile rd n x st")
    case (Continue st')
    with processFile_other [of rd n x st st' m] x Cons.IH [of st'] show ?thesis by simp
  next
    case (Break st')
    with processFile_other [of rd n x st st' m] x show ?thesis by simp
  qed
qed

lemma processFile_binary:
  "rd m = Inr text \<Longrightarrow> CHR 0x00 \<in> set text \<Longrightarrow>
     processFile rd n m st = Continue (st\<lparr>diagnostics := diagnostics st @ [SkippingBinary m]\<rparr>)"
  by (simp add: processFile_cases report_def)

lemma findAndReadFiles_diagnostics:
  "diagnostics (findAndReadFiles repo rd pats)
     = diagnostics (readFiles rd (length (allFiles repo pats)) (allFiles repo pats) initial)
       @ [Summary (length (results (findAndReadFiles repo rd pats)))
            (totalTokens (findAndReadFiles repo rd pats))]"
  by (simp add: findAndReadFiles_def Let_def report_def initial_def)

lemma binary_reported_once:
  assumes all: "allFiles repo pats = pre @ m # rest"
      and run: "\<not> stops rd (length (allFiles repo pats)) pre initial"
      and bin: "rd m = Inr text" "CHR 0x00 \<in> set text"
  shows "count_list (diagnostics (findAndReadFiles repo rd pats)) (SkippingBinary m) = 1"
proof -
  let ?n = "length (allFiles repo pats)"
  let ?st = "readFiles rd ?n pre initial"
  from allFiles_distinct [of repo pats] all have m: "m \<notin> set pre" "m \<notin> set rest" by auto
  note pb = processFile_binary [of rd m "text", OF bin]
  have "readFiles rd ?n (pre @ m # rest) initial
      = readFiles rd ?n rest (?st\<lparr>diagnostics := diagnostics ?st @ [SkippingBinary m]\<rparr>)"
    using run by (simp add: readFiles_append pb)
  then have "readFiles rd ?n (allFiles repo pats) initial
      = readFiles rd ?n rest (?st\<lparr>diagnostics := diagnostics ?st @ [SkippingBinary m]\<rparr>)"
    by (simp add: all)
  then have "count_list (diagnostics (readFiles rd ?n (allFiles repo pats) initial)) (SkippingBinary m)
      = count_list (diagnostics ?st) (SkippingBinary m) + 1"
    using readFiles_other [OF m(2)] by simp
  also have "count_list (diagnostics ?st) (SkippingBinary m) = 0"
    using readFiles_other [OF m(1), of rd ?n initial] by (simp add: initial_def)
  finally show ?thesis by (simp add: findAndReadFiles_diagnostics)
qed

lemma budget_stop:
  assumes over: "rd m = Inr text" "CHR 0x00 \<notin> set text"
     "totalTokens (readFiles rd n pre st) + estimateTokens (capped text) > MAX_TOTAL_TOKENS"
  shows "results (readFiles rd n (pre @ m # rest) st) = results (readFiles rd n pre st)"
proof (cases "stops rd n pre st")
  case True
  then show ?thesis by (simp add: readFiles_append)
next
  case False
  then show ?thesis using over
    by (simp add: readFiles_append processFile_cases report_def)
qed

lemma readFiles_paths:
  "path ` set (results (readFiles rd n xs st)) \<subseteq> path ` set (results st) \<union> set xs"
  using readFiles_results [of _ rd n xs st] by auto

lemma sizeBytes_is_content_length:
  "\<forall>f \<in> set (reportedFiles (collectRepoFiles repo rd depthArg)).
     sizeBytes f = length (content f)
     \<and> (\<exists>t. rd (path f) = Inr t
          \<and> content f = (if length t \<le> MAX_FILE_SIZE then t else take 50000 t @ notice))"
proof
  fix f assume f: "f \<in> set (reportedFiles (collectRepoFiles repo rd depthArg))"
  then obtain node d pats where node: "repo = Some node" "isDirectory node"
    and d: "d = (case depthArg of None \<Rightarrow> ''standard'' | Some d \<Rightarrow> d)"
    and pats: "getFilePatterns d = Some pats"
    by (auto simp: reportedFiles_def collectRepoFiles_def Let_def split: option.splits if_splits)
  with f obtain g where g: "g \<in> set (results (findAndReadFiles node rd pats))"
    "f = \<lparr>path = path g, content = content g, sizeBytes = length (content g)\<rparr>"
    by (auto simp: reportedFiles_def collectRepoFiles_def Let_def split: if_splits)
  from findAndReadFiles_accepted [OF g(1)] obtain t where
    t: "rd (path g) = Inr t" "content g = capped t"
    by (auto simp: accepted_def split: sum.splits)
  have "capped t = (if length t \<le> MAX_FILE_SIZE then t else take 50000 t @ notice)"
    by (simp add: capped_eq MAX_FILE_SIZE_def)
  with g(2) t show "sizeBytes f = length (content f)
     \<and> (\<exists>t. rd (path f) = Inr t
          \<and> content f = (if length t \<le> MAX_FILE_SIZE then t else take 50000 t @ notice))"
    by simp
qed

lemma collect_big:
  "collectRepoFiles (Some bigRepo) bigRead (Some ''minimal'')
     = Inr (Files ''minimal''
         [\<lparr>path = ''package-lock.json'', content = replicate 50000 CHR ''x'' @ notice,
           sizeBytes = 50074\<rparr>])"
proof -
  have "isDirectory bigRepo" by (simp add: bigRepo_def isDirectory_def)
  then show ?thesis
    by (simp add: collectRepoFiles_def getFilePatterns_def results_big length_notice Let_def)
qed

text \<open>
  Claim C1, as the code has it. The content returned for a collected file is the file's text when
  that has at most 50000 characters; otherwise it is the first 50000 characters followed by the
  truncation notice, so its length is at most the cap plus the 74 characters of the notice.
\<close>

theorem collected_content_capped:
  "\<forall>f \<in> set (results (findAndReadFiles repo rd pats)).
     \<exists>t. rd (path f) = Inr t
       \<and> content f = (if length t \<le> MAX_FILE_SIZE then t
                       else truncateContent t MAX_FILE_SIZE)
       \<and> (length t > MAX_FILE_SIZE \<longrightarrow> content f = take 50000 t @ notice)
       \<and> length (content f) \<le> 50000 + length notice
       \<and> length notice = 74"
proof
  fix f assume "f \<in> set (results (findAndReadFiles repo rd pats))"
  from findAndReadFiles_accepted [OF this] obtain t where
    t: "rd (path f) = Inr t" "content f = capped t"
    by (auto simp: accepted_def split: sum.splits)
  have "length (capped t) \<le> 50000 + length notice"
    using length_capped [of t] by (simp add: length_notice)
  moreover have "capped t = (if length t \<le> MAX_FILE_SIZE then t else truncateContent t MAX_FILE_SIZE)"
    by (simp add: capped_def)
  moreover have "length t > MAX_FILE_SIZE \<longrightarrow> capped t = take 50000 t @ notice"
    by (simp add: capped_def truncateContent_long)
  ultimately show "\<exists>t. rd (path f) = Inr t
       \<and> content f = (if length t \<le> MAX_FILE_SIZE then t
                       else truncateContent t MAX_FILE_SIZE)
       \<and> (length t > MAX_FILE_SIZE \<longrightarrow> content f = take 50000 t @ notice)
       \<and> length (content f) \<le> 50000 + length notice
       \<and> length notice = 74"
    using t length_notice by auto
qed

text \<open>A file of 250000 characters is returned as its first 50000 characters and the notice.\<close>

theorem collected_content_capped_witness:
  "\<lparr>path = ''package-lock.json'', content = replicate 50000 CHR ''x'' @ notice\<rparr>
      \<in> set (results (findAndReadFiles bigRepo bigRead minimal))
   \<and> bigRead ''package-lock.json'' = Inr (replicate 250000 CHR ''x'')
   \<and> length (replicate 50000 CHR ''x'' @ notice) \<le> 50000 + length notice"
proof -
  let ?f = "\<lparr>path = ''package-lock.json'', content = replicate 50000 CHR ''x'' @ notice\<rparr>"
  have m: "?f \<in> set (results (findAndReadFiles bigRepo bigRead minimal))"
    by (simp add: results_big)
  from collected_content_capped [of bigRepo bigRead minimal] m
  have "\<exists>t. bigRead (path ?f) = Inr t \<and> length (content ?f) \<le> 50000 + length notice"
    by blast
  then show ?thesis using m by (simp add: bigRead_def)
qed

text \<open>
  The claim as first stated (the returned content never exceeds the cap) fails for that file: the
  one returned content is longer than MAX_FILE_SIZE.
\<close>

theorem collected_content_counterexample:
  "length (results (findAndReadFiles bigRepo bigRead minimal)) = 1
   \<and> \<not> length (content (hd (results (findAndReadFiles bigRepo bigRead minimal)))) \<le> MAX_FILE_SIZE"
  by (simp add: results_big length_notice MAX_FILE_SIZE_def)

text \<open>
  Claim C2. A file longer than the cap is returned as its first 50000 characters followed by
  the truncation notice; that part of the claim holds. The sizeBytes field is computed from
  the content that is returned, after truncation: the file of 250000 characters of the
  repository's tests is reported with sizeBytes 50074, not 250000.
\<close>

theorem reported_size_after_truncation:
  "bigRead ''package-lock.json'' = Inr (replicate 250000 CHR ''x'')
   \<and> length (replicate 250000 CHR ''x'') = 250000
   \<and> collectRepoFiles (Some bigRepo) bigRead (Some ''minimal'')
       = Inr (Files ''minimal''
           [\<lparr>path = ''package-lock.json'', content = replicate 50000 CHR ''x'' @ notice,
             sizeBytes = 50074\<rparr>])
   \<and> map sizeBytes (reportedFiles (collectRepoFiles (Some bigRepo) bigRead (Some ''minimal'')))
       = [50074]"
  by (simp add: collect_big reportedFiles_def bigRead_def)

text \<open>
  Claim C3. The estimated token costs of the returned files never add up to more than the budget
  of 15000, and the first candidate that would push the running total over the budget ends the
  loop: the result is what the candidates before it produced, whatever follows it.
\<close>

theorem token_budget_respected:
  "sum_list (map (estimateTokens \<circ> content) (results (findAndReadFiles repo rd pats)))
      \<le> MAX_TOTAL_TOKENS
   \<and> MAX_TOTAL_TOKENS = 15000
   \<and> (\<forall>pre m rest t.
        allFiles repo pats = pre @ m # rest \<and> rd m = Inr t \<and> CHR 0x00 \<notin> set t
        \<and> totalTokens (readFiles rd (length (allFiles repo pats)) pre initial)
             + estimateTokens (if length t > MAX_FILE_SIZE then truncateContent t MAX_FILE_SIZE else t)
           > MAX_TOTAL_TOKENS
        \<longrightarrow> results (findAndReadFiles repo rd pats)
              = results (readFiles rd (length (allFiles repo pats)) pre initial)
            \<and> path ` set (results (findAndReadFiles repo rd pats)) \<subseteq> set pre)"
proof -
  have a: "sum_list (map (estimateTokens \<circ> content) (results (findAndReadFiles repo rd pats)))
      \<le> MAX_TOTAL_TOKENS"
    using findAndReadFiles_budget [of repo rd pats] by (simp add: cost_def)
  have b: "results (findAndReadFiles repo rd pats)
              = results (readFiles rd (length (allFiles repo pats)) pre initial)
            \<and> path ` set (results (findAndReadFiles repo rd pats)) \<subseteq> set pre"
    if h: "allFiles repo pats = pre @ m # rest" "rd m = Inr t" "CHR 0x00 \<notin> set t"
      "totalTokens (readFiles rd (length (allFiles repo pats)) pre initial)
             + estimateTokens (if length t > MAX_FILE_SIZE then truncateContent t MAX_FILE_SIZE else t)
           > MAX_TOTAL_TOKENS" for pre m rest t
  proof -
    let ?n = "length (allFiles repo pats)"
    have "results (readFiles rd ?n (pre @ m # rest) initial) = results (readFiles rd ?n pre initial)"
      using h(2-4) by (intro budget_stop [of rd m t]) (simp_all add: capped_def)
    then have eq: "results (findAndReadFiles repo rd pats) = results (readFiles rd ?n pre initial)"
      by (simp add: findAndReadFiles_results h(1))
    moreover have "path ` set (results (readFiles rd ?n pre initial)) \<subseteq> set pre"
      using readFiles_paths [of rd ?n pre initial] by (simp add: initial_def)
    ultimately show ?thesis by simp
  qed
  have c: "MAX_TOTAL_TOKENS = 15000" by (simp add: MAX_TOTAL_TOKENS_def)
  from a c b show ?thesis by blast
qed

text \<open>
  Three candidates of 6000 tokens each followed by one of a single token: two files are returned,
  the third ends the loop and the fourth is never considered although it would fit.
\<close>

theorem token_budget_respected_witness:
  "allFiles budgetRepo [''*.txt''] = [''a.txt'', ''b.txt''] @ ''c.txt'' # [''d.txt'']
   \<and> budgetRead ''c.txt'' = Inr (replicate 24000 CHR ''x'')
   \<and> CHR 0x00 \<notin> set (replicate 24000 CHR ''x'')
   \<and> totalTokens (readFiles budgetRead 4 [''a.txt'', ''b.txt''] initial) = 12000
   \<and> estimateTokens (replicate 24000 CHR ''x'') = 6000
   \<and> budgetRead ''d.txt'' = Inr ''tiny'' \<and> estimateTokens ''tiny'' = 1
   \<and> map path (results (findAndReadFiles budgetRepo budgetRead [''*.txt''])) = [''a.txt'', ''b.txt'']
   \<and> sum_list (map (estimateTokens \<circ> content)
         (results (findAndReadFiles budgetRepo budgetRead [''*.txt'']))) \<le> 15000"
proof -
  let ?x = "replicate 24000 CHR ''x''"
  have all: "allFiles budgetRepo [''*.txt''] = [''a.txt'', ''b.txt''] @ ''c.txt'' # [''d.txt'']"
    by (simp add: allFiles_budgetRepo)
  have n: "length (allFiles budgetRepo [''*.txt'']) = 4"
    by (simp add: allFiles_budgetRepo)
  have rd: "budgetRead ''c.txt'' = Inr ?x" "budgetRead ''d.txt'' = Inr ''tiny''"
    by (simp_all add: budgetRead_def)
  have z: "CHR 0x00 \<notin> set ?x" by simp
  have e: "estimateTokens ?x = 6000" "estimateTokens ''tiny'' = 1"
    by (simp_all add: estimateTokens_def)
  have pre: "readFiles budgetRead 4 [''a.txt'', ''b.txt''] initial
      = \<lparr>results = [\<lparr>path = ''a.txt'', content = ?x\<rparr>, \<lparr>path = ''b.txt'', content = ?x\<rparr>],
         totalTokens = 12000, diagnostics = []\<rparr>"
    by (simp add: processFile_cases budgetRead_def capped_eq initial_def e MAX_TOTAL_TOKENS_def
        MAX_FILE_SIZE_def)
  have over: "totalTokens (readFiles budgetRead (length (allFiles budgetRepo [''*.txt'']))
        [''a.txt'', ''b.txt''] initial)
      + estimateTokens (if length ?x > MAX_FILE_SIZE then truncateContent ?x MAX_FILE_SIZE else ?x)
      > MAX_TOTAL_TOKENS"
    unfolding n pre by (simp add: e MAX_FILE_SIZE_def MAX_TOTAL_TOKENS_def)
  note T = token_budget_respected [of budgetRepo budgetRead "[''*.txt'']"]
  from T all rd(1) z over
  have "results (findAndReadFiles budgetRepo budgetRead [''*.txt''])
      = results (readFiles budgetRead (length (allFiles budgetRepo [''*.txt''])) [''a.txt'', ''b.txt''] initial)"
    by blast
  then have r: "map path (results (findAndReadFiles budgetRepo budgetRead [''*.txt'']))
      = [''a.txt'', ''b.txt'']"
    unfolding n pre by simp
  from T have "sum_list (map (estimateTokens \<circ> content)
         (results (findAndReadFiles budgetRepo budgetRead [''*.txt'']))) \<le> 15000"
    by simp
  with all rd z e r pre show ?thesis by simp
qed

text \<open>
  Claim C9. A file whose text contains a null byte is skipped: processing it leaves the results
  and the running token total as they were and adds the one diagnostic that names it; it is
  never among the returned files, and in a run that reaches it the diagnostic occurs exactly once.
\<close>

theorem binary_file_skipped:
  "rd m = Inr t \<and> CHR 0x00 \<in> set t \<longrightarrow>
     processFile rd n m st = Continue (st\<lparr>diagnostics := diagnostics st @ [SkippingBinary m]\<rparr>)
     \<and> m \<notin> path ` set (results (findAndReadFiles repo rd pats))
     \<and> (\<forall>pre rest. allFiles repo pats = pre @ m # rest
            \<and> \<not> stops rd (length (allFiles repo pats)) pre initial
          \<longrightarrow> count_list (diagnostics (findAndReadFiles repo rd pats)) (SkippingBinary m) = 1)"
proof
  assume h: "rd m = Inr t \<and> CHR 0x00 \<in> set t"
  then have bin: "rd m = Inr t" "CHR 0x00 \<in> set t" by simp_all
  have a: "processFile rd n m st = Continue (st\<lparr>diagnostics := diagnostics st @ [SkippingBinary m]\<rparr>)"
    using bin by (rule processFile_binary)
  have b: "m \<notin> path ` set (results (findAndReadFiles repo rd pats))"
  proof
    assume "m \<in> path ` set (results (findAndReadFiles repo rd pats))"
    then obtain f where "f \<in> set (results (findAndReadFiles repo rd pats))" "path f = m" by auto
    from findAndReadFiles_accepted [OF this(1)] this(2) bin show False
      by (simp add: accepted_def)
  qed
  have c: "count_list (diagnostics (findAndReadFiles repo rd pats)) (SkippingBinary m) = 1"
    if "allFiles repo pats = pre @ m # rest \<and> \<not> stops rd (length (allFiles repo pats)) pre initial"
    for pre rest
    using that bin binary_reported_once [of repo pats pre m rest rd t] by blast
  from a b c show "processFile rd n m st = Continue (st\<lparr>diagnostics := diagnostics st @ [SkippingBinary m]\<rparr>)
     \<and> m \<notin> path ` set (results (findAndReadFiles repo rd pats))
     \<and> (\<forall>pre rest. allFiles repo pats = pre @ m # rest
            \<and> \<not> stops rd (length (allFiles repo pats)) pre initial
          \<longrightarrow> count_list (diagnostics (findAndReadFiles repo rd pats)) (SkippingBinary m) = 1)"
    by blast
qed

text \<open>The binary \<open>Dockerfile.bin\<close> of the repository's tests, next to a readable README.\<close>

theorem binary_file_skipped_witness:
  "binRead ''Dockerfile.bin'' = Inr [CHR 0x00, CHR 0x01, CHR 0x02, CHR 0x03]
   \<and> CHR 0x00 \<in> set [CHR 0x00, CHR 0x01, CHR 0x02, CHR 0x03]
   \<and> allFiles binRepo [''Dockerfile.*'', ''README.md''] = [''README.md''] @ ''Dockerfile.bin'' # []
   \<and> \<not> stops binRead 2 [''README.md''] initial
   \<and> processFile binRead 2 ''Dockerfile.bin'' initial
        = Continue (initial\<lparr>diagnostics := [SkippingBinary ''Dockerfile.bin'']\<rparr>)
   \<and> ''Dockerfile.bin'' \<notin> path ` set (results (findAndReadFiles binRepo binRead [''Dockerfile.*'', ''README.md'']))
   \<and> count_list (diagnostics (findAndReadFiles binRepo binRead [''Dockerfile.*'', ''README.md'']))
        (SkippingBinary ''Dockerfile.bin'') = 1"
proof -
  let ?p = "[''Dockerfile.*'', ''README.md'']"
  let ?b = "[CHR 0x00, CHR 0x01, CHR 0x02, CHR 0x03]"
  have rd: "binRead ''Dockerfile.bin'' = Inr ?b \<and> CHR 0x00 \<in> set ?b"
    by (simp add: binRead_def)
  have all: "allFiles binRepo ?p = [''README.md''] @ ''Dockerfile.bin'' # []"
    by (simp add: allFiles_binRepo)
  have n: "length (allFiles binRepo ?p) = 2" by (simp add: allFiles_binRepo)
  have s: "\<not> stops binRead 2 [''README.md''] initial"
    by (simp add: processFile_cases binRead_def capped_eq initial_def estimateTokens_def
        MAX_TOTAL_TOKENS_def MAX_FILE_SIZE_def)
  note T = binary_file_skipped [of binRead "''Dockerfile.bin''" ?b 2 initial binRepo ?p, rule_format, OF rd]
  from T have a: "processFile binRead 2 ''Dockerfile.bin'' initial
        = Continue (initial\<lparr>diagnostics := [SkippingBinary ''Dockerfile.bin'']\<rparr>)"
    by (simp add: initial_def)
  from T have b: "''Dockerfile.bin'' \<notin> path ` set (results (findAndReadFiles binRepo binRead ?p))"
    by blast
  from T all s n have c: "count_list (diagnostics (findAndReadFiles binRepo binRead ?p))
        (SkippingBinary ''Dockerfile.bin'') = 1"
    by metis
  from rd all s a b c show ?thesis by blast
qed

end
